theory Spec2Isabelle
  imports Main "HOL-Library.AList"
begin

section \<open>Data model of useQueryStates.ts\<close>

text \<open>
  JavaScript objects used as records (\<open>keyMap\<close>, \<open>queryRef.current\<close>,
  \<open>stateRef.current\<close>) are association lists in property order: \<open>Object.keys\<close> is
  \<open>map fst\<close>, a property read is \<open>map_of\<close> (\<open>None\<close> is \<open>undefined\<close>), a property
  write is \<open>AList.update\<close>. A value that may be \<open>null\<close> is an \<open>option\<close> with \<open>None\<close> for
  \<open>null\<close>; typed values of the application are the type variable \<open>'v\<close>, on which
  \<open>===\<close> is HOL equality (object values stand for their references).
\<close>

type_synonym key = string

datatype HistoryOptions = replace | push

text \<open>\<open>Options\<close> of defs.ts: every field is optional (\<open>None\<close> is \<open>undefined\<close>).\<close>

record 't Options =
  history :: "HistoryOptions option"
  scroll :: "bool option"
  shallow :: "bool option"
  throttleMs :: "nat option"
  startTransition :: "'t option"
  clearOnDefault :: "bool option"

text \<open>A parser either returns a value (or \<open>null\<close>) or throws.\<close>

datatype 'v parsed = Returns "'v option" | Throws

text \<open>\<open>KeyMapValue<Type> = Parser<Type> & Options & { defaultValue?: Type }\<close>.\<close>

record ('v, 't) KeyMapValue = "'t Options" +
  parse :: "string \<Rightarrow> 'v parsed"
  serialize :: "('v \<Rightarrow> string) option"
  eq :: "('v \<Rightarrow> 'v \<Rightarrow> bool) option"
  defaultValue :: "'v option"

type_synonym ('v, 't) KeysMap = "(key \<times> ('v, 't) KeyMapValue) list"
type_synonym 'v Values = "(key \<times> 'v option) list"
type_synonym Query = "(key \<times> string option) list"
type_synonym URLSearchParams = "(key \<times> string) list"

text \<open>\<open>a ?? b\<close> where \<open>a\<close> is nullable.\<close>

definition nullish :: "'a option \<Rightarrow> 'a option \<Rightarrow> 'a option" where
  "nullish a b = (case a of Some v \<Rightarrow> Some v | None \<Rightarrow> b)"

text \<open>\<open>obj[key] ?? null\<close>: a missing property and a \<open>null\<close> property read alike.\<close>

definition getProp :: "(key \<times> 'a option) list \<Rightarrow> key \<Rightarrow> 'a option" where
  "getProp obj k = (case map_of obj k of Some (Some v) \<Rightarrow> Some v | _ \<Rightarrow> None)"

text \<open>\<open>Object.fromEntries\<close>: a later entry of the same key overwrites an earlier one.\<close>

definition fromEntries :: "(key \<times> 'a) list \<Rightarrow> (key \<times> 'a) list" where
  "fromEntries es = fold (\<lambda>(k, v). AList.update k v) es []"

text \<open>\<open>URLSearchParams.get\<close> returns the first value of the key, or \<open>null\<close>.\<close>

definition get :: "URLSearchParams \<Rightarrow> key \<Rightarrow> string option" where
  "get searchParams k = map_of searchParams k"

section \<open>State derivation: parseMap\<close>

text \<open>
  Modelled from the spec: \<open>safeParse\<close> of utils.ts is not among the sources. The spec
  (4.3, 7) says that a parse failure falls back to \<open>null\<close> rather than throwing and
  is logged as a warning-level diagnostic. The result is the value and the warnings
  logged (the failing value and its key).
\<close>

definition safeParse :: "(string \<Rightarrow> 'v parsed) \<Rightarrow> string \<Rightarrow> key \<Rightarrow> 'v option \<times> (key \<times> string) list" where
  "safeParse parser v k = (case parser v of Returns r \<Rightarrow> (r, []) | Throws \<Rightarrow> (None, [(k, v)]))"

text \<open>
  The accumulator of the \<open>reduce\<close> in \<open>parseMap\<close>: the object built so far, the
  (mutated) \<open>cachedQuery\<close> when one was passed, every call of a parser made, and the
  warnings logged.
\<close>

record 'v Parsing =
  obj :: "'v Values"
  cachedQuery :: "Query option"
  parseCalls :: "(key \<times> string) list"
  warnings :: "(key \<times> string) list"

text \<open>
  The test \<open>cachedQuery && cachedState && cachedQuery[key] === query\<close> of line 233,
  returning \<open>cachedState[key]\<close> (read through \<open>??\<close>) when it succeeds. A key missing
  from \<open>cachedQuery\<close> reads \<open>undefined\<close> (or a function inherited from
  \<open>Object.prototype\<close>), which is not \<open>===\<close> to a \<open>null\<close> or string query. The cached
  state the hook passes is a state of the same key map and has an entry for every
  managed key.
\<close>

definition cacheHit :: "Query option \<Rightarrow> 'v Values option \<Rightarrow> key \<Rightarrow> string option \<Rightarrow> 'v option option" where
  "cacheHit cqo cso k query =
     (case cqo of None \<Rightarrow> None
      | Some cq \<Rightarrow> (case cso of None \<Rightarrow> None
          | Some cs \<Rightarrow> if map_of cq k = Some query then Some (getProp cs k) else None))"

text \<open>\<open>query === null ? null : safeParse(parse, query, key)\<close> with the parser calls made.\<close>

definition parseQuery :: "(string \<Rightarrow> 'v parsed) \<Rightarrow> string option \<Rightarrow> key \<Rightarrow>
    'v option \<times> (key \<times> string) list \<times> (key \<times> string) list" where
  "parseQuery parser query k =
     (case query of None \<Rightarrow> (None, [], [])
      | Some s \<Rightarrow> (fst (safeParse parser s k), [(k, s)], snd (safeParse parser s k)))"

text \<open>
  One iteration of the \<open>reduce\<close> (lines 230-243). The iteration runs over
  \<open>Object.keys(keyMap)\<close> and reads \<open>keyMap[key]\<close>, that is, over the entries of the
  key map. A missing \<open>searchParams\<close> (\<open>searchParams?.get(key) ?? null\<close>) is the empty
  parameter list.
\<close>

definition parseKey :: "URLSearchParams \<Rightarrow> 'v Values option \<Rightarrow>
    key \<times> ('v, 't) KeyMapValue \<Rightarrow> 'v Parsing \<Rightarrow> 'v Parsing" where
  "parseKey searchParams cachedState e acc =
    (let k = fst e; query = get searchParams k in
     (case cacheHit (cachedQuery acc) cachedState k query of
        Some c \<Rightarrow> acc\<lparr>obj := AList.update k (nullish c (defaultValue (snd e))) (obj acc)\<rparr>
      | None \<Rightarrow>
          (let r = parseQuery (parse (snd e)) query k in
           acc\<lparr>obj := AList.update k (nullish (fst r) (defaultValue (snd e))) (obj acc),
               cachedQuery := map_option (AList.update k query) (cachedQuery acc),
               parseCalls := parseCalls acc @ fst (snd r),
               warnings := warnings acc @ snd (snd r)\<rparr>)))"

definition parseMap :: "('v, 't) KeysMap \<Rightarrow> URLSearchParams \<Rightarrow> Query option \<Rightarrow>
    'v Values option \<Rightarrow> 'v Parsing" where
  "parseMap keyMap searchParams cq cs =
     fold (parseKey searchParams cs) keyMap
       \<lparr>obj = [], cachedQuery = cq, parseCalls = [], warnings = []\<rparr>"

section \<open>The update queue\<close>

text \<open>
  Modelled from the spec: update-queue.ts (\<open>enqueueQueryStringUpdate\<close>,
  \<open>scheduleFlushToURL\<close>, the flush) is not among the sources. Following the spec (3, 4.1):
  a Pending Update holds the next serialized value of a key, or the tombstone \<open>None\<close>,
  and the navigation options to apply when it is flushed; the queue state is the mapping
  of keys to Pending Updates, the cached result handle, the timer governing when the
  next flush may run (the time, in milliseconds, at which it expires, while it is armed)
  and the timestamp of the last completed flush. Promise handles are numbered in order
  of creation. Times are natural numbers of milliseconds on the clock of the page.
\<close>

record 't PendingUpdate =
  serialized :: "string option"
  navigation :: "'t Options"

record 't UpdateQueue =
  pending :: "(key \<times> 't PendingUpdate) list"
  flushPromiseCache :: "nat option"
  promises :: nat
  flushTimer :: "nat option"
  lastFlushedAt :: nat

text \<open>
  Modelled from the spec: the merge done by \<open>enqueue\<close> (update-queue.ts, not among the
  sources) with the options queued before for the same key, the latest winning per field;
  a field the new options leave undefined keeps what was queued.
\<close>

definition mergeOptions :: "'t Options \<Rightarrow> 't Options \<Rightarrow> 't Options" where
  "mergeOptions old new =
     \<lparr>history = nullish (history new) (history old),
      scroll = nullish (scroll new) (scroll old),
      shallow = nullish (shallow new) (shallow old),
      throttleMs = nullish (throttleMs new) (throttleMs old),
      startTransition = nullish (startTransition new) (startTransition old),
      clearOnDefault = nullish (clearOnDefault new) (clearOnDefault old)\<rparr>"

text \<open>
  Modelled from the spec: \<open>enqueueQueryStringUpdate\<close> of update-queue.ts is not among the
  sources. Following the spec (4.1), \<open>enqueue(key, value, serialize, options)\<close> computes
  the serialized form of the value (\<open>null\<close> stays \<open>null\<close> and means that the key is to
  be deleted), stores or overwrites the Pending Update of the key, and returns the
  serialized string or \<open>null\<close>.
\<close>

definition enqueueQueryStringUpdate :: "key \<Rightarrow> 'v option \<Rightarrow> ('v \<Rightarrow> string) \<Rightarrow> 't Options \<Rightarrow>
    't UpdateQueue \<Rightarrow> string option \<times> 't UpdateQueue" where
  "enqueueQueryStringUpdate k v ser opts q =
     (let s = map_option ser v;
          opts' = (case map_of (pending q) k of
                     None \<Rightarrow> opts
                   | Some old \<Rightarrow> mergeOptions (navigation old) opts)
      in (s, q\<lparr>pending := AList.update k \<lparr>serialized = s, navigation = opts'\<rparr> (pending q)\<rparr>))"

text \<open>
  Modelled from the spec: the throttle interval of the window (update-queue.ts, not among
  the sources). The spec (3, 4.1) has each Pending Update carry the throttle interval its
  caller requested and names one \<open>throttleInterval\<close> for the timer; with one pending
  update it is the interval of that update. Where several pending updates request
  different intervals the spec does not say which applies: the largest is taken, as the
  strongest requirement is for the navigation options of the commit.
\<close>

definition throttleInterval :: "'t UpdateQueue \<Rightarrow> nat" where
  "throttleInterval q =
     fold (\<lambda>e m. max m (case throttleMs (navigation (snd e)) of Some t \<Rightarrow> t | None \<Rightarrow> 0)) (pending q) 0"

text \<open>
  Modelled from the spec: the delay of the flush timer (update-queue.ts, not among the
  sources). Following the spec (4.1) it is
  \<open>max(0, throttleInterval * rateLimitFactor - timeSinceLastFlush)\<close> milliseconds, the
  time since the last flush being counted from the timestamp the queue recorded (on
  natural numbers the subtraction stops at zero). The time of the call is the argument
  \<open>now\<close>.
\<close>

definition flushDelay :: "nat \<Rightarrow> nat \<Rightarrow> 't UpdateQueue \<Rightarrow> nat" where
  "flushDelay rateLimitFactor now q =
     max 0 (throttleInterval q * rateLimitFactor - (now - lastFlushedAt q))"

text \<open>
  Modelled from the spec: \<open>scheduleFlushToURL\<close> of update-queue.ts is not among the
  sources. Following the spec (4.1), \<open>scheduleFlush(applyToUrl, rateLimitFactor)\<close> returns
  the cached handle if there is one; otherwise it creates a handle, caches it and arms the
  timer, which expires after the delay above. The adapter's \<open>updateUrl\<close> is used when
  the timer fires: the commit is \<open>flushToURL\<close> below.
\<close>

definition scheduleFlushToURL :: "nat \<Rightarrow> nat \<Rightarrow> 't UpdateQueue \<Rightarrow> nat \<times> 't UpdateQueue" where
  "scheduleFlushToURL rateLimitFactor now q =
     (case flushPromiseCache q of
        Some p \<Rightarrow> (p, q)
      | None \<Rightarrow> (promises q, q\<lparr>flushPromiseCache := Some (promises q), promises := Suc (promises q),
                                  flushTimer := Some (now + flushDelay rateLimitFactor now q)\<rparr>))"

text \<open>
  \<open>URLSearchParams.set\<close> (the first entry of the key takes the value, its other entries
  are removed; a new key is appended) and \<open>URLSearchParams.delete\<close>.
\<close>

fun searchParams_set :: "key \<Rightarrow> string \<Rightarrow> URLSearchParams \<Rightarrow> URLSearchParams" where
  "searchParams_set k v [] = [(k, v)]"
| "searchParams_set k v (e # es) =
     (if fst e = k then (k, v) # filter (\<lambda>e'. fst e' \<noteq> k) es else e # searchParams_set k v es)"

definition searchParams_delete :: "key \<Rightarrow> URLSearchParams \<Rightarrow> URLSearchParams" where
  "searchParams_delete k es = filter (\<lambda>e. fst e \<noteq> k) es"

text \<open>
  Modelled from the spec: the commit of update-queue.ts (not among the sources) applies
  every pending key/value pair to the parameter set of the current URL; a tombstone
  removes the key.
\<close>

definition applyPending :: "(key \<times> 't PendingUpdate) list \<Rightarrow> URLSearchParams \<Rightarrow> URLSearchParams" where
  "applyPending items search =
     fold (\<lambda>e. case serialized (snd e) of
                  None \<Rightarrow> searchParams_delete (fst e)
                | Some v \<Rightarrow> searchParams_set (fst e) v) items search"

text \<open>
  Modelled from the spec: the options of the single combined navigation of the commit
  (update-queue.ts, not among the sources). Following the spec (4.1), the strongest
  requirement of any pending update applies: push wins over replace, non-shallow over
  shallow, and scrolling over not scrolling.
\<close>

record NavigationOptions =
  nav_history :: HistoryOptions
  nav_shallow :: bool
  nav_scroll :: bool

definition combinedOptions :: "(key \<times> 't PendingUpdate) list \<Rightarrow> NavigationOptions" where
  "combinedOptions items =
     \<lparr>nav_history = (if list_ex (\<lambda>e. history (navigation (snd e)) = Some push) items then push else replace),
      nav_shallow = (\<not> list_ex (\<lambda>e. shallow (navigation (snd e)) = Some False) items),
      nav_scroll = list_ex (\<lambda>e. scroll (navigation (snd e)) = Some True) items\<rparr>"

section \<open>Bindings, the event bus and the world\<close>

text \<open>
  \<open>CrossHookSyncPayload\<close> (its declaration in sync.ts is not among the sources): the two
  fields the handler of line 121 reads and the emit of lines 201-204 writes.
\<close>

record 'v CrossHookSyncPayload =
  state :: "'v option"
  query :: "string option"

text \<open>
  The group-level options of a hook after the defaults of the destructuring
  (lines 63-70) are applied.
\<close>

record 't GroupOptions =
  g_history :: HistoryOptions
  g_scroll :: bool
  g_shallow :: bool
  g_throttleMs :: nat
  g_clearOnDefault :: bool
  g_startTransition :: "'t option"

text \<open>\<open>a ?? b\<close> where \<open>b\<close> is not nullable.\<close>

definition orDefault :: "'a option \<Rightarrow> 'a \<Rightarrow> 'a" where
  "orDefault a b = (case a of Some v \<Rightarrow> v | None \<Rightarrow> b)"

text \<open>
  The constant \<open>FLUSH_RATE_LIMIT_MS\<close> of update-queue.ts is not among the sources: it is
  a parameter.
\<close>

definition groupOptions :: "nat \<Rightarrow> ('t, 'z) Options_scheme \<Rightarrow> 't GroupOptions" where
  "groupOptions FLUSH_RATE_LIMIT_MS opts =
     \<lparr>g_history = orDefault (history opts) replace,
      g_scroll = orDefault (scroll opts) False,
      g_shallow = orDefault (shallow opts) True,
      g_throttleMs = orDefault (throttleMs opts) FLUSH_RATE_LIMIT_MS,
      g_clearOnDefault = orDefault (clearOnDefault opts) False,
      g_startTransition = startTransition opts\<rparr>"

text \<open>
  One call site of \<open>useQueryStates\<close>: its key map and group options, the two refs, the
  React state, and whether its insertion effect has subscribed its handlers (one per key
  of the key map, lines 119-147) to the event bus.
\<close>

record ('v, 't) Binding =
  keyMap :: "('v, 't) KeysMap"
  group :: "'t GroupOptions"
  queryRef :: Query
  stateRef :: "'v Values"
  internalState :: "'v Values"
  subscribed :: bool

text \<open>
  What happens, in order: the calls made to the queue and to the event bus, the
  navigation call made to the adapter and the resolution of a Promise handle.
\<close>

datatype 'v Event =
    Enqueued key "string option"
  | Emitted key "'v CrossHookSyncPayload"
  | Scheduled nat
  | UpdateUrl URLSearchParams NavigationOptions
  | Resolved nat URLSearchParams

text \<open>
  The page: the process-wide update queue, the search parameters of the current URL
  (which the adapter hands to every hook as \<open>searchParams\<close>), the \<open>rateLimitFactor\<close> the
  adapter may expose (\<open>None\<close> when it exposes none), the bindings in the order in which
  they were mounted, the clock in milliseconds, and the trace.
\<close>

record ('v, 't) World =
  updateQueue :: "'t UpdateQueue"
  location :: URLSearchParams
  rateLimitFactor :: "nat option"
  hooks :: "('v, 't) Binding list"
  clock :: nat
  trace :: "'v Event list"

text \<open>
  The handler a binding subscribes for a key of its key map (lines 121-139); \<open>parser\<close>
  is \<open>keyMap[key]\<close>. \<open>setInternalState\<close> makes the state the one rendered next.
\<close>

definition syncHandler :: "('v, 't) KeyMapValue \<Rightarrow> key \<Rightarrow> 'v CrossHookSyncPayload \<Rightarrow>
    ('v, 't) Binding \<Rightarrow> ('v, 't) Binding" where
  "syncHandler parser k payload b =
     (let st = AList.update k (nullish (state payload) (defaultValue parser)) (stateRef b)
      in b\<lparr>stateRef := st,
            queryRef := AList.update k (query payload) (queryRef b),
            internalState := st\<rparr>)"

text \<open>
  Modelled from the spec: the emitter of sync.ts is not among the sources. Following the
  spec (4.2), \<open>emit\<close> invokes every handler registered for the key, synchronously, in
  the calling context. The handlers registered are those of the subscribed bindings,
  one per key of the binding's key map: \<open>deliver\<close> is what an emit does to one binding.
\<close>

definition deliver :: "key \<Rightarrow> 'v CrossHookSyncPayload \<Rightarrow> ('v, 't) Binding \<Rightarrow> ('v, 't) Binding" where
  "deliver k payload b =
     (if subscribed b
      then (case map_of (keyMap b) k of
              None \<Rightarrow> b
            | Some parser \<Rightarrow> syncHandler parser k payload b)
      else b)"

text \<open>
  Modelled from the spec: \<open>emitter.emit\<close> of sync.ts (not among the sources) runs the
  handlers at once, in the order of registration, here the order of the bindings.
\<close>

definition emit :: "key \<Rightarrow> 'v CrossHookSyncPayload \<Rightarrow> ('v, 't) World \<Rightarrow> ('v, 't) World" where
  "emit k payload w =
     w\<lparr>hooks := map (deliver k payload) (hooks w),
       trace := trace w @ [Emitted k payload]\<rparr>"

section \<open>The update function\<close>

datatype 'v StateUpdater =
    UpdaterFn "'v Values \<Rightarrow> 'v Values"
  | ClearAll
  | PartialValues "'v Values"

text \<open>
  The test of lines 176-178: \<open>value !== null && parser.defaultValue !== undefined &&
  (parser.eq ?? ((a, b) => a === b))(value, parser.defaultValue)\<close>. The values are
  those of a type with equality, as JavaScript's primitive values are under \<open>===\<close>
  (\<open>NaN\<close> apart); for objects \<open>===\<close> compares references.
\<close>

definition equalsDefault :: "('v, 't) KeyMapValue \<Rightarrow> 'v option \<Rightarrow> bool" where
  "equalsDefault parser v =
     (case v of None \<Rightarrow> False
      | Some x \<Rightarrow> (case defaultValue parser of None \<Rightarrow> False
          | Some d \<Rightarrow> (case eq parser of None \<Rightarrow> x = d | Some e \<Rightarrow> e x d)))"

text \<open>
  Lines 172-181: the value becomes \<open>null\<close> when clearing on default is in force
  (\<open>callOptions.clearOnDefault ?? parser.clearOnDefault ?? clearOnDefault\<close>) and the
  value equals the default.
\<close>

definition substituteDefault :: "('t, 'z) Options_scheme \<Rightarrow> ('v, 't) KeyMapValue \<Rightarrow> 't GroupOptions \<Rightarrow>
    'v option \<Rightarrow> 'v option" where
  "substituteDefault callOptions parser g v =
     (if orDefault (nullish (clearOnDefault callOptions) (clearOnDefault parser)) (g_clearOnDefault g)
         \<and> equalsDefault parser v
      then None else v)"

text \<open>The options object of lines 187-199.\<close>

definition resolveOptions :: "('t, 'z) Options_scheme \<Rightarrow> ('v, 't) KeyMapValue \<Rightarrow> 't GroupOptions \<Rightarrow> 't Options" where
  "resolveOptions callOptions parser g =
     \<lparr>history = Some (orDefault (nullish (history callOptions) (history parser)) (g_history g)),
      scroll = Some (orDefault (nullish (scroll callOptions) (scroll parser)) (g_scroll g)),
      shallow = Some (orDefault (nullish (shallow callOptions) (shallow parser)) (g_shallow g)),
      throttleMs = Some (orDefault (nullish (throttleMs callOptions) (throttleMs parser)) (g_throttleMs g)),
      startTransition = nullish (nullish (startTransition callOptions) (startTransition parser)) (g_startTransition g),
      clearOnDefault = None\<rparr>"

text \<open>
  \<open>keyMap[key]\<close> (line 168) is a property read on an object: it finds the key's own
  entry, and for a key the key map does not have, a property inherited from
  \<open>Object.prototype\<close> (the key map being an object literal). Such a property (a function,
  or the prototype itself for \<open>__proto__\<close>) is truthy and has none of the fields of a
  parser or of the options.
\<close>

definition objectPrototypeKeys :: "key list" where
  "objectPrototypeKeys =
     [''constructor'', ''hasOwnProperty'', ''isPrototypeOf'', ''propertyIsEnumerable'',
      ''toLocaleString'', ''toString'', ''valueOf'', ''__defineGetter__'', ''__defineSetter__'',
      ''__lookupGetter__'', ''__lookupSetter__'', ''__proto__'']"

definition inheritedProperty :: "('v, 't) KeyMapValue" where
  "inheritedProperty =
     \<lparr>history = None, scroll = None, shallow = None, throttleMs = None,
      startTransition = None, clearOnDefault = None,
      parse = (\<lambda>s. Throws), serialize = None, eq = None, defaultValue = None\<rparr>"

definition keyMapProperty :: "('v, 't) KeysMap \<Rightarrow> key \<Rightarrow> ('v, 't) KeyMapValue option" where
  "keyMapProperty km k =
     (case map_of km k of
        Some parser \<Rightarrow> Some parser
      | None \<Rightarrow> if k \<in> set objectPrototypeKeys then Some inheritedProperty else None)"

text \<open>
  One iteration of the loop of lines 167-205, for the binding at index \<open>i\<close>. \<open>String\<close>
  is JavaScript's conversion of a value to a string.
\<close>

definition updateEntry :: "('v \<Rightarrow> string) \<Rightarrow> nat \<Rightarrow> ('t, 'z) Options_scheme \<Rightarrow> key \<times> 'v option \<Rightarrow>
    ('v, 't) World \<Rightarrow> ('v, 't) World" where
  "updateEntry String i callOptions e w =
     (let b = hooks w ! i; k = fst e in
      case keyMapProperty (keyMap b) k of
        None \<Rightarrow> w
      | Some parser \<Rightarrow>
          (let v = substituteDefault callOptions parser (group b) (snd e);
               r = enqueueQueryStringUpdate k v (orDefault (serialize parser) String)
                     (resolveOptions callOptions parser (group b)) (updateQueue w);
               qr = AList.update k (fst r) (queryRef b)
           in emit k \<lparr>state = v, query = getProp qr k\<rparr>
                (w\<lparr>updateQueue := snd r,
                   hooks := (hooks w)[i := b\<lparr>queryRef := qr\<rparr>],
                   trace := trace w @ [Enqueued k (fst r)]\<rparr>)))"

text \<open>The state to apply (lines 158-165).\<close>

definition newStateOf :: "('v, 't) Binding \<Rightarrow> 'v StateUpdater \<Rightarrow> 'v Values" where
  "newStateOf b stateUpdater =
     (case stateUpdater of
        UpdaterFn f \<Rightarrow> f (stateRef b)
      | ClearAll \<Rightarrow> fromEntries (map (\<lambda>k. (k, None)) (map fst (keyMap b)))
      | PartialValues m \<Rightarrow> m)"

text \<open>
  \<open>update\<close> (lines 156-207) of the binding at index \<open>i\<close>: the result is the Promise
  handle returned and the world after the call. The \<open>rateLimitFactor\<close> is the adapter's,
  or \<open>1\<close> (line 77).
\<close>

definition update :: "('v \<Rightarrow> string) \<Rightarrow> nat \<Rightarrow> 'v StateUpdater \<Rightarrow> ('t, 'z) Options_scheme \<Rightarrow>
    ('v, 't) World \<Rightarrow> nat \<times> ('v, 't) World" where
  "update String i stateUpdater callOptions w =
     (let w1 = fold (updateEntry String i callOptions) (newStateOf (hooks w ! i) stateUpdater) w;
          r = scheduleFlushToURL (orDefault (rateLimitFactor w1) 1) (clock w1) (updateQueue w1)
      in (fst r, w1\<lparr>updateQueue := snd r, trace := trace w1 @ [Scheduled (fst r)]\<rparr>))"

section \<open>The flush\<close>

text \<open>
  Modelled from the spec: the commit of update-queue.ts is not among the sources.
  Following the spec (4.1), when the timer fires the queue reads and clears the pending
  updates, applies them to the parameters of the current URL in one navigation call of
  the adapter, records the flush timestamp, resolves the cached handle with the
  resulting parameters and clears it. The timer fires when it expires: the clock is then
  at the expiry time (or where it already is, if the page was busy beyond it). The adapter
  is an external collaborator: its \<open>updateUrl\<close> commits the parameters it is given. No
  timer fires while no handle is cached.
\<close>

definition flushToURL :: "('v, 't) World \<Rightarrow> ('v, 't) World" where
  "flushToURL w =
     (case flushPromiseCache (updateQueue w) of
        None \<Rightarrow> w
      | Some p \<Rightarrow>
          (let items = pending (updateQueue w);
               search = applyPending items (location w);
               t = (case flushTimer (updateQueue w) of
                      None \<Rightarrow> clock w
                    | Some expiry \<Rightarrow> max (clock w) expiry)
           in w\<lparr>updateQueue := (updateQueue w)\<lparr>pending := [], flushPromiseCache := None,
                                                 flushTimer := None, lastFlushedAt := t\<rparr>,
                 location := search,
                 clock := t,
                 trace := trace w @ [UpdateUrl search (combinedOptions items), Resolved p search]\<rparr>))"

section \<open>Rendering\<close>

text \<open>
  Lines 79-83, run at every render: \<open>queryRef\<close> is set again from the entries of the
  search parameters whenever its number of keys differs from that of the key map.
\<close>

definition initQueryRef :: "URLSearchParams \<Rightarrow> ('v, 't) Binding \<Rightarrow> ('v, 't) Binding" where
  "initQueryRef initialSearchParams b =
     (if length (queryRef b) \<noteq> length (keyMap b)
      then b\<lparr>queryRef := fromEntries (map (\<lambda>e. (fst e, Some (snd e))) initialSearchParams)\<rparr>
      else b)"

text \<open>
  The effect of lines 98-110: the state is derived again with the two refs as caches
  (\<open>parseMap\<close> mutates \<open>queryRef.current\<close>) and becomes the React state.
\<close>

definition syncEffect :: "URLSearchParams \<Rightarrow> ('v, 't) Binding \<Rightarrow> ('v, 't) Binding" where
  "syncEffect initialSearchParams b =
     (let r = parseMap (keyMap b) initialSearchParams (Some (queryRef b)) (Some (stateRef b))
      in b\<lparr>internalState := obj r,
            queryRef := (case cachedQuery r of Some q \<Rightarrow> q | None \<Rightarrow> queryRef b)\<rparr>)"

text \<open>A render of the binding at index \<open>i\<close> against the current URL, followed by the effect.\<close>

definition render :: "nat \<Rightarrow> ('v, 't) World \<Rightarrow> ('v, 't) World" where
  "render i w = w\<lparr>hooks := (hooks w)[i := initQueryRef (location w) (hooks w ! i)]\<rparr>"

definition renderAndSync :: "nat \<Rightarrow> ('v, 't) World \<Rightarrow> ('v, 't) World" where
  "renderAndSync i w =
     w\<lparr>hooks := (hooks w)[i := syncEffect (location w) (initQueryRef (location w) (hooks w ! i))]\<rparr>"

text \<open>
  The first render of \<open>useQueryStates(keyMap, options)\<close> (lines 79-90), then its
  insertion effect (the subscription) and the first run of the effect of lines 98-110.
\<close>

definition useQueryStates :: "nat \<Rightarrow> ('v, 't) KeysMap \<Rightarrow> ('t, 'z) Options_scheme \<Rightarrow>
    URLSearchParams \<Rightarrow> ('v, 't) Binding" where
  "useQueryStates FLUSH_RATE_LIMIT_MS km opts initialSearchParams =
     (let st = obj (parseMap km initialSearchParams None None)
      in initQueryRef initialSearchParams
           \<lparr>keyMap = km, group = groupOptions FLUSH_RATE_LIMIT_MS opts, queryRef = [],
            stateRef = st, internalState = st, subscribed = False\<rparr>)"

definition mount :: "nat \<Rightarrow> ('v, 't) KeysMap \<Rightarrow> ('t, 'z) Options_scheme \<Rightarrow> ('v, 't) World \<Rightarrow> ('v, 't) World" where
  "mount FLUSH_RATE_LIMIT_MS km opts w =
     w\<lparr>hooks := hooks w @
         [syncEffect (location w)
            ((useQueryStates FLUSH_RATE_LIMIT_MS km opts (location w))\<lparr>subscribed := True\<rparr>)]\<rparr>"

text \<open>
  Time passing: the clock advances by \<open>ms\<close> milliseconds, but not beyond the expiry of an
  armed timer (the expiry itself is the step \<open>Flush\<close>).
\<close>

definition advance :: "nat \<Rightarrow> ('v, 't) World \<Rightarrow> ('v, 't) World" where
  "advance ms w =
     w\<lparr>clock := (case flushTimer (updateQueue w) of
                   None \<Rightarrow> clock w + ms
                 | Some expiry \<Rightarrow> max (clock w) (min (clock w + ms) expiry))\<rparr>"

text \<open>
  The steps of a run: calls of update functions, timer expiries, renders, and time
  passing.
\<close>

datatype ('v, 't) Action =
    Update nat "'v StateUpdater" "'t Options"
  | Flush
  | Render nat
  | RenderAndSync nat
  | Advance nat

fun step :: "('v \<Rightarrow> string) \<Rightarrow> ('v, 't) Action \<Rightarrow> ('v, 't) World \<Rightarrow> ('v, 't) World" where
  "step String (Update i su callOptions) w = snd (update String i su callOptions w)"
| "step String Flush w = flushToURL w"
| "step String (Render i) w = render i w"
| "step String (RenderAndSync i) w = renderAndSync i w"
| "step String (Advance ms) w = advance ms w"

definition run :: "('v \<Rightarrow> string) \<Rightarrow> ('v, 't) Action list \<Rightarrow> ('v, 't) World \<Rightarrow> ('v, 't) World" where
  "run String acts w = fold (step String) acts w"

text \<open>A sequence of \<open>enqueue\<close> calls, each with its key, value, serializer and options.\<close>

definition enqueueAll :: "(key \<times> 'v option \<times> ('v \<Rightarrow> string) \<times> 't Options) list \<Rightarrow>
    't UpdateQueue \<Rightarrow> 't UpdateQueue" where
  "enqueueAll calls q =
     fold (\<lambda>c q'. snd (enqueueQueryStringUpdate (fst c) (fst (snd c)) (fst (snd (snd c))) (snd (snd (snd c))) q'))
       calls q"

text \<open>What the queue holds for a key: its next serialized value and its options.\<close>

definition queuedValue :: "'t UpdateQueue \<Rightarrow> key \<Rightarrow> string option option" where
  "queuedValue q k = map_option serialized (map_of (pending q) k)"

definition queuedOptions :: "'t UpdateQueue \<Rightarrow> key \<Rightarrow> 't Options option" where
  "queuedOptions q k = map_option navigation (map_of (pending q) k)"

section \<open>Observations on traces\<close>

text \<open>The snapshots the Promise handle \<open>p\<close> has been resolved with, in order.\<close>

fun resolutionsOf :: "nat \<Rightarrow> 'v Event list \<Rightarrow> URLSearchParams list" where
  "resolutionsOf p [] = []"
| "resolutionsOf p (Resolved p' search # evs) =
     (if p' = p then search # resolutionsOf p evs else resolutionsOf p evs)"
| "resolutionsOf p (e # evs) = resolutionsOf p evs"

text \<open>The key an enqueue or an emit is about.\<close>

fun eventKey :: "'v Event \<Rightarrow> key option" where
  "eventKey (Enqueued k s) = Some k"
| "eventKey (Emitted k payload) = Some k"
| "eventKey e = None"

fun isEmitted :: "'v Event \<Rightarrow> bool" where
  "isEmitted (Emitted k payload) = True"
| "isEmitted e = False"

text \<open>
  Handles are numbered as they are created, so every handle resolved so far is below
  the counter, and the cached handle is one that has not been resolved.
\<close>

definition promisesFresh :: "('v, 't) World \<Rightarrow> bool" where
  "promisesFresh w =
     (list_all (\<lambda>e. case e of Resolved p search \<Rightarrow> p < promises (updateQueue w) | _ \<Rightarrow> True) (trace w) \<and>
      (case flushPromiseCache (updateQueue w) of
         None \<Rightarrow> True
       | Some p \<Rightarrow> p < promises (updateQueue w) \<and> resolutionsOf p (trace w) = []))"

section \<open>The equality of a key as the specification words it\<close>



section \<open>An example configuration\<close>

text \<open>
  A key \<open>count\<close> of integer type with default \<open>0\<close>, as in the scenarios of the spec (8),
  for the concrete instances of the theorems below.
\<close>

definition parseExample :: "string \<Rightarrow> int parsed" where
  "parseExample s =
     (if s = ''0'' then Returns (Some 0) else if s = ''5'' then Returns (Some 5)
      else if s = ''boom'' then Throws else Returns None)"

definition serializeExample :: "int \<Rightarrow> string" where
  "serializeExample v = (if v = 0 then ''0'' else if v = 5 then ''5'' else ''n'')"

definition noOptions :: "unit Options" where
  "noOptions = \<lparr>history = None, scroll = None, shallow = None, throttleMs = None,
     startTransition = None, clearOnDefault = None\<rparr>"

definition countKey :: "(int, unit) KeyMapValue" where
  "countKey = \<lparr>history = None, scroll = None, shallow = None, throttleMs = Some 200,
     startTransition = None, clearOnDefault = Some True,
     parse = parseExample, serialize = Some serializeExample, eq = None, defaultValue = Some 0\<rparr>"

definition pageKey :: "(int, unit) KeyMapValue" where
  "pageKey = \<lparr>history = Some push, scroll = None, shallow = None, throttleMs = None,
     startTransition = None, clearOnDefault = None,
     parse = parseExample, serialize = Some serializeExample, eq = None, defaultValue = None\<rparr>"

definition emptyQueue :: "unit UpdateQueue" where
  "emptyQueue = \<lparr>pending = [], flushPromiseCache = None, promises = 0,
     flushTimer = None, lastFlushedAt = 0\<rparr>"

definition exampleWorld :: "(int, unit) World" where
  "exampleWorld =
     \<lparr>updateQueue = emptyQueue,
      location = [(''q'', ''x'')],
      rateLimitFactor = None,
      hooks = [\<lparr>keyMap = [(''count'', countKey), (''page'', pageKey)],
                group = groupOptions 50 noOptions,
                queryRef = [(''q'', Some ''x'')],
                stateRef = [(''count'', Some 0), (''page'', None)],
                internalState = [(''count'', Some 0), (''page'', None)],
                subscribed = True\<rparr>,
               \<lparr>keyMap = [(''count'', countKey)],
                group = groupOptions 50 noOptions,
                queryRef = [(''q'', Some ''x'')],
                stateRef = [(''count'', Some 0)],
                internalState = [(''count'', Some 0)],
                subscribed = True\<rparr>],
      clock = 0,
      trace = []\<rparr>"



text \<open>A page that has just been loaded, with an empty URL: no hook is mounted yet.\<close>

definition emptyPage :: "(int, unit) World" where
  "emptyPage = \<lparr>updateQueue = emptyQueue, location = [], rateLimitFactor = None, hooks = [],
     clock = 0, trace = []\<rparr>"

text \<open>That page after one hook managing \<open>page\<close> has been mounted.\<close>

definition pageWorld :: "(int, unit) World" where
  "pageWorld = mount 50 [(''page'', pageKey)] noOptions emptyPage"


text \<open>
  That page after a hook managing \<open>count\<close> (per-key \<open>throttleMs\<close> of 200) and \<open>page\<close> (no
  per-key \<open>throttleMs\<close>) has been mounted with the group-level option \<open>throttleMs: 50\<close>, in
  a library whose \<open>FLUSH_RATE_LIMIT_MS\<close> is 20.
\<close>

definition throttleWorld :: "(int, unit) World" where
  "throttleWorld = mount 20 [(''count'', countKey), (''page'', pageKey)] (noOptions\<lparr>throttleMs := Some 50\<rparr>) emptyPage"

section \<open>Properties of the state derivation\<close>

lemma getProp_update [simp]: "getProp (AList.update k v al) k' = (if k' = k then v else getProp al k')"
  by (simp add: getProp_def update_conv' split: option.splits)

lemma parseKey_other:
  assumes "k \<noteq> fst e"
  shows "map_of (obj (parseKey sp cs e acc)) k = map_of (obj acc) k"
    and "map_option (\<lambda>cq. map_of cq k) (cachedQuery (parseKey sp cs e acc)) = map_option (\<lambda>cq. map_of cq k) (cachedQuery acc)"
    and "filter (\<lambda>c. fst c = k) (parseCalls (parseKey sp cs e acc)) = filter (\<lambda>c. fst c = k) (parseCalls acc)"
    and "filter (\<lambda>c. fst c = k) (warnings (parseKey sp cs e acc)) = filter (\<lambda>c. fst c = k) (warnings acc)"
  using assms
  by (auto simp: parseKey_def Let_def update_conv' parseQuery_def safeParse_def option.map_comp comp_def
      split: option.splits parsed.splits)

lemma fold_parseKey_other:
  assumes "k \<notin> fst ` set km"
  shows "map_of (obj (fold (parseKey sp cs) km acc)) k = map_of (obj acc) k"
    and "map_option (\<lambda>cq. map_of cq k) (cachedQuery (fold (parseKey sp cs) km acc)) = map_option (\<lambda>cq. map_of cq k) (cachedQuery acc)"
    and "filter (\<lambda>c. fst c = k) (parseCalls (fold (parseKey sp cs) km acc)) = filter (\<lambda>c. fst c = k) (parseCalls acc)"
    and "filter (\<lambda>c. fst c = k) (warnings (fold (parseKey sp cs) km acc)) = filter (\<lambda>c. fst c = k) (warnings acc)"
  using assms
proof (induction km arbitrary: acc)
  case Nil
  { case 1 show ?case by simp }
  { case 2 show ?case by simp }
  { case 3 show ?case by simp }
  { case 4 show ?case by simp }
next
  case (Cons e km)
  { case 1 then show ?case using Cons.IH(1) by (simp add: parseKey_other) }
  { case 2 then show ?case using Cons.IH(2) by (simp add: parseKey_other) }
  { case 3 then show ?case using Cons.IH(3) by (simp add: parseKey_other) }
  { case 4 then show ?case using Cons.IH(4) by (simp add: parseKey_other) }
qed


lemma cacheHit_cong:
  "map_option (\<lambda>cq. map_of cq k) cqo = map_option (\<lambda>cq. map_of cq k) cqo' \<Longrightarrow>
   cacheHit cqo cso k q = cacheHit cqo' cso k q"
  by (cases cqo; cases cqo'; simp add: cacheHit_def split: option.splits)

lemma parseKey_at:
  "map_of (obj (parseKey sp cso (k, kv) acc)) k =
     Some (case cacheHit (cachedQuery acc) cso k (get sp k) of
             Some c \<Rightarrow> nullish c (defaultValue kv)
           | None \<Rightarrow> nullish (fst (parseQuery (parse kv) (get sp k) k)) (defaultValue kv))"
  "filter (\<lambda>c. fst c = k) (parseCalls (parseKey sp cso (k, kv) acc)) =
     filter (\<lambda>c. fst c = k) (parseCalls acc) @
     (case cacheHit (cachedQuery acc) cso k (get sp k) of
        Some c \<Rightarrow> [] | None \<Rightarrow> fst (snd (parseQuery (parse kv) (get sp k) k)))"
  "filter (\<lambda>c. fst c = k) (warnings (parseKey sp cso (k, kv) acc)) =
     filter (\<lambda>c. fst c = k) (warnings acc) @
     (case cacheHit (cachedQuery acc) cso k (get sp k) of
        Some c \<Rightarrow> [] | None \<Rightarrow> snd (snd (parseQuery (parse kv) (get sp k) k)))"
  by (auto simp: parseKey_def Let_def update_conv' parseQuery_def safeParse_def
      split: option.splits parsed.splits)

lemma split_distinct_keys:
  assumes "distinct (map fst km)" "(k, kv) \<in> set km"
  obtains pre post where "km = pre @ (k, kv) # post" "k \<notin> fst ` set pre" "k \<notin> fst ` set post"
proof -
  from assms(2) obtain pre post where km: "km = pre @ (k, kv) # post"
    by (auto simp: in_set_conv_decomp)
  with assms(1) have "k \<notin> fst ` set pre" "k \<notin> fst ` set post" by auto
  with km show thesis by (rule that)
qed

lemma parseMap_at_key:
  assumes "distinct (map fst km)" "(k, kv) \<in> set km"
  shows "map_of (obj (parseMap km sp cqo cso)) k =
     Some (case cacheHit cqo cso k (get sp k) of
             Some c \<Rightarrow> nullish c (defaultValue kv)
           | None \<Rightarrow> nullish (fst (parseQuery (parse kv) (get sp k) k)) (defaultValue kv))"
   and "filter (\<lambda>c. fst c = k) (parseCalls (parseMap km sp cqo cso)) =
     (case cacheHit cqo cso k (get sp k) of
        Some c \<Rightarrow> [] | None \<Rightarrow> fst (snd (parseQuery (parse kv) (get sp k) k)))"
   and "filter (\<lambda>c. fst c = k) (warnings (parseMap km sp cqo cso)) =
     (case cacheHit cqo cso k (get sp k) of
        Some c \<Rightarrow> [] | None \<Rightarrow> snd (snd (parseQuery (parse kv) (get sp k) k)))"
proof -
  from assms obtain pre post where
    km: "km = pre @ (k, kv) # post" and pre: "k \<notin> fst ` set pre" and post: "k \<notin> fst ` set post"
    by (rule split_distinct_keys)
  define acc1 where "acc1 = fold (parseKey sp cso) pre
    \<lparr>obj = [], cachedQuery = cqo, parseCalls = [], warnings = []\<rparr>"
  have hit: "cacheHit (cachedQuery acc1) cso k (get sp k) = cacheHit cqo cso k (get sp k)"
    unfolding acc1_def
    by (rule cacheHit_cong) (simp add: fold_parseKey_other(2)[OF pre])
  have calls: "filter (\<lambda>c. fst c = k) (parseCalls acc1) = []"
    and warns: "filter (\<lambda>c. fst c = k) (warnings acc1) = []"
    unfolding acc1_def by (simp_all add: fold_parseKey_other[OF pre])
  have run: "parseMap km sp cqo cso = fold (parseKey sp cso) post (parseKey sp cso (k, kv) acc1)"
    by (simp add: parseMap_def km acc1_def)
  show "map_of (obj (parseMap km sp cqo cso)) k =
     Some (case cacheHit cqo cso k (get sp k) of
             Some c \<Rightarrow> nullish c (defaultValue kv)
           | None \<Rightarrow> nullish (fst (parseQuery (parse kv) (get sp k) k)) (defaultValue kv))"
    by (simp only: run fold_parseKey_other(1)[OF post] parseKey_at(1) hit)
  show "filter (\<lambda>c. fst c = k) (parseCalls (parseMap km sp cqo cso)) =
     (case cacheHit cqo cso k (get sp k) of
        Some c \<Rightarrow> [] | None \<Rightarrow> fst (snd (parseQuery (parse kv) (get sp k) k)))"
    by (simp only: run fold_parseKey_other(3)[OF post] parseKey_at(2) hit calls append_Nil)
  show "filter (\<lambda>c. fst c = k) (warnings (parseMap km sp cqo cso)) =
     (case cacheHit cqo cso k (get sp k) of
        Some c \<Rightarrow> [] | None \<Rightarrow> snd (snd (parseQuery (parse kv) (get sp k) k)))"
    by (simp only: run fold_parseKey_other(4)[OF post] parseKey_at(3) hit warns append_Nil)
qed






text \<open>
  C8. During state derivation, for a managed key whose current serialized URL value
  equals the cached serialized value, no parser is called and the key takes the cached
  typed value, read as the source reads it: the cached value when it is not null,
  otherwise the default of the key, otherwise null; this is the cached value itself
  whenever that value is null only for a key without default, as every value resolved
  with this key map is. A key whose serialized value differs, or that is derived
  without caches, has its string parsed (once, and not at all when the key is absent
  from the URL) and resolves to the parsed value, else the default, else null.
\<close>

theorem parseMap_memoization:
  assumes "distinct (map fst km)" and "(k, parser) \<in> set km"
  shows "(map_of cq k = Some (get searchParams k) \<longrightarrow>
            k \<notin> fst ` set (parseCalls (parseMap km searchParams (Some cq) (Some cs))) \<and>
            map_of (obj (parseMap km searchParams (Some cq) (Some cs))) k
              = Some (case map_of cs k of
                        Some (Some cached) \<Rightarrow> Some cached
                      | _ \<Rightarrow> (case defaultValue parser of Some d \<Rightarrow> Some d | None \<Rightarrow> None)) \<and>
            (map_of cs k = Some c \<and> (c = None \<longrightarrow> defaultValue parser = None) \<longrightarrow>
               map_of (obj (parseMap km searchParams (Some cq) (Some cs))) k = Some c)) \<and>
         ((\<forall>cq' cs'. cqo = Some cq' \<longrightarrow> cso = Some cs' \<longrightarrow> map_of cq' k \<noteq> Some (get searchParams k)) \<longrightarrow>
            filter (\<lambda>c. fst c = k) (parseCalls (parseMap km searchParams cqo cso))
              = (case get searchParams k of None \<Rightarrow> [] | Some s \<Rightarrow> [(k, s)]) \<and>
            map_of (obj (parseMap km searchParams cqo cso)) k
              = Some (case (case get searchParams k of
                              None \<Rightarrow> None
                            | Some s \<Rightarrow> (case parse parser s of Returns r \<Rightarrow> r | Throws \<Rightarrow> None)) of
                        Some parsed \<Rightarrow> Some parsed
                      | None \<Rightarrow> (case defaultValue parser of Some d \<Rightarrow> Some d | None \<Rightarrow> None)))"
proof (intro conjI impI)
  assume hit: "map_of cq k = Some (get searchParams k)"
  then have h: "cacheHit (Some cq) (Some cs) k (get searchParams k) = Some (getProp cs k)"
    by (simp add: cacheHit_def)
  show r: "map_of (obj (parseMap km searchParams (Some cq) (Some cs))) k
      = Some (case map_of cs k of
                Some (Some cached) \<Rightarrow> Some cached
              | _ \<Rightarrow> (case defaultValue parser of Some d \<Rightarrow> Some d | None \<Rightarrow> None))"
    by (simp add: getProp_def parseMap_at_key(1)[OF assms] h nullish_def split: option.splits)
  show "map_of (obj (parseMap km searchParams (Some cq) (Some cs))) k = Some c"
    if "map_of cs k = Some c \<and> (c = None \<longrightarrow> defaultValue parser = None)"
    using that unfolding r by (cases c) (auto split: option.splits)
  have "filter (\<lambda>c. fst c = k) (parseCalls (parseMap km searchParams (Some cq) (Some cs))) = []"
    by (simp add: parseMap_at_key(2)[OF assms] h)
  then show "k \<notin> fst ` set (parseCalls (parseMap km searchParams (Some cq) (Some cs)))"
    by (auto simp: filter_empty_conv)
next
  assume miss: "\<forall>cq' cs'. cqo = Some cq' \<longrightarrow> cso = Some cs' \<longrightarrow> map_of cq' k \<noteq> Some (get searchParams k)"
  then have h: "cacheHit cqo cso k (get searchParams k) = None"
    by (simp add: cacheHit_def split: option.splits)
  show "filter (\<lambda>c. fst c = k) (parseCalls (parseMap km searchParams cqo cso))
      = (case get searchParams k of None \<Rightarrow> [] | Some s \<Rightarrow> [(k, s)])"
    by (simp add: parseMap_at_key(2)[OF assms] h parseQuery_def split: option.splits)
  show "map_of (obj (parseMap km searchParams cqo cso)) k
      = Some (case (case get searchParams k of
                      None \<Rightarrow> None
                    | Some s \<Rightarrow> (case parse parser s of Returns r \<Rightarrow> r | Throws \<Rightarrow> None)) of
                Some parsed \<Rightarrow> Some parsed
              | None \<Rightarrow> (case defaultValue parser of Some d \<Rightarrow> Some d | None \<Rightarrow> None))"
    by (simp add: parseMap_at_key(1)[OF assms] h parseQuery_def safeParse_def nullish_def
        split: option.splits parsed.splits)
qed

theorem parseMap_memoization_witness:
  "distinct (map fst [(''count'', countKey), (''page'', pageKey)]) \<and>
   (''count'', countKey) \<in> set [(''count'', countKey), (''page'', pageKey)] \<and>
   (''page'', pageKey) \<in> set [(''count'', countKey), (''page'', pageKey)] \<and>
   defaultValue countKey = Some 0 \<and> defaultValue pageKey = None \<and>
   map_of [(''count'', Some ''5'')] ''count'' = Some (get [(''count'', ''5'')] ''count'') \<and>
   ''count'' \<notin> fst ` set (parseCalls (parseMap [(''count'', countKey), (''page'', pageKey)] [(''count'', ''5'')]
      (Some [(''count'', Some ''5'')]) (Some [(''count'', Some 7)]))) \<and>
   map_of (obj (parseMap [(''count'', countKey), (''page'', pageKey)] [(''count'', ''5'')]
      (Some [(''count'', Some ''5'')]) (Some [(''count'', Some 7)]))) ''count'' = Some (Some 7) \<and>
   map_of [(''count'', Some ''0'')] ''count'' \<noteq> Some (get [(''count'', ''5'')] ''count'') \<and>
   filter (\<lambda>c. fst c = ''count'') (parseCalls (parseMap [(''count'', countKey), (''page'', pageKey)]
      [(''count'', ''5'')] (Some [(''count'', Some ''0'')]) (Some [(''count'', Some 7)]))) = [(''count'', ''5'')] \<and>
   map_of (obj (parseMap [(''count'', countKey), (''page'', pageKey)] [(''count'', ''5'')]
      (Some [(''count'', Some ''0'')]) (Some [(''count'', Some 7)]))) ''count'' = Some (Some 5) \<and>
   map_of [(''count'', None)] ''count'' = Some (get [] ''count'') \<and>
   map_of (obj (parseMap [(''count'', countKey), (''page'', pageKey)] []
      (Some [(''count'', None)]) (Some [(''count'', None)]))) ''count'' = Some (Some 0) \<and>
   map_of [(''count'', Some ''5'')] ''count'' \<noteq> Some (get [] ''count'') \<and>
   filter (\<lambda>c. fst c = ''count'') (parseCalls (parseMap [(''count'', countKey), (''page'', pageKey)]
      [] (Some [(''count'', Some ''5'')]) (Some [(''count'', Some 7)]))) = [] \<and>
   map_of (obj (parseMap [(''count'', countKey), (''page'', pageKey)] []
      (Some [(''count'', Some ''5'')]) (Some [(''count'', Some 7)]))) ''count'' = Some (Some 0) \<and>
   parse countKey ''zz'' = Returns None \<and> parse pageKey ''zz'' = Returns None \<and>
   map_of (obj (parseMap [(''count'', countKey), (''page'', pageKey)] [(''count'', ''zz''), (''page'', ''zz'')]
      None None)) ''count'' = Some (Some 0) \<and>
   map_of (obj (parseMap [(''count'', countKey), (''page'', pageKey)] [(''count'', ''zz''), (''page'', ''zz'')]
      None None)) ''page'' = Some None"
proof -
  let ?km = "[(''count'', countKey), (''page'', pageKey)]"
  have h1: "distinct (map fst ?km)" by simp
  have h2: "(''count'', countKey) \<in> set ?km" and h3: "(''page'', pageKey) \<in> set ?km" by simp_all
  have d: "defaultValue countKey = Some 0" "defaultValue pageKey = None"
    by (simp_all add: countKey_def pageKey_def)
  have p: "parse countKey ''5'' = Returns (Some 5)" "parse countKey ''zz'' = Returns None"
    "parse pageKey ''zz'' = Returns None"
    by (simp_all add: countKey_def pageKey_def parseExample_def)
  have hit1: "map_of [(''count'', Some ''5'')] ''count'' = Some (get [(''count'', ''5'')] ''count'')"
    by (simp add: get_def)
  have miss1: "map_of [(''count'', Some ''0'')] ''count'' \<noteq> Some (get [(''count'', ''5'')] ''count'')"
    by (simp add: get_def)
  have hit2: "map_of [(''count'', None)] ''count'' = Some (get [] ''count'')"
    by (simp add: get_def)
  have miss2: "map_of [(''count'', Some ''5'')] ''count'' \<noteq> Some (get [] ''count'')"
    by (simp add: get_def)
  note t1 = parseMap_memoization [OF h1 h2, of "[(''count'', Some ''5'')]" "[(''count'', ''5'')]"
      "[(''count'', Some 7)]" "Some 7" "Some [(''count'', Some ''0'')]" "Some [(''count'', Some 7)]"]
  note t2 = parseMap_memoization [OF h1 h2, of "[(''count'', None)]" "[]"
      "[(''count'', None)]" None "Some [(''count'', Some ''5'')]" "Some [(''count'', Some 7)]"]
  note t3 = parseMap_memoization [OF h1 h2, of "[]" "[(''count'', ''zz''), (''page'', ''zz'')]" "[]" None None None]
  note t4 = parseMap_memoization [OF h1 h3, of "[]" "[(''count'', ''zz''), (''page'', ''zz'')]" "[]" None None None]
  from t1 hit1 have a1: "''count'' \<notin> fst ` set (parseCalls (parseMap ?km [(''count'', ''5'')]
      (Some [(''count'', Some ''5'')]) (Some [(''count'', Some 7)])))"
    by blast
  from t1 hit1 have a2: "map_of (obj (parseMap ?km [(''count'', ''5'')]
      (Some [(''count'', Some ''5'')]) (Some [(''count'', Some 7)]))) ''count'' = Some (Some 7)"
    by simp
  from t1 miss1 have a3: "filter (\<lambda>c. fst c = ''count'') (parseCalls (parseMap ?km
      [(''count'', ''5'')] (Some [(''count'', Some ''0'')]) (Some [(''count'', Some 7)]))) = [(''count'', ''5'')]"
    by (simp add: get_def)
  from t1 miss1 have a4: "map_of (obj (parseMap ?km [(''count'', ''5'')]
      (Some [(''count'', Some ''0'')]) (Some [(''count'', Some 7)]))) ''count'' = Some (Some 5)"
    by (simp add: get_def p)
  from t2 hit2 have b1: "map_of (obj (parseMap ?km []
      (Some [(''count'', None)]) (Some [(''count'', None)]))) ''count'' = Some (Some 0)"
    by (simp add: d)
  from t2 miss2 have b2: "filter (\<lambda>c. fst c = ''count'') (parseCalls (parseMap ?km
      [] (Some [(''count'', Some ''5'')]) (Some [(''count'', Some 7)]))) = []"
    by (simp add: get_def)
  from t2 miss2 have b3: "map_of (obj (parseMap ?km []
      (Some [(''count'', Some ''5'')]) (Some [(''count'', Some 7)]))) ''count'' = Some (Some 0)"
    by (simp add: get_def d)
  from t3 have c1: "map_of (obj (parseMap ?km [(''count'', ''zz''), (''page'', ''zz'')]
      None None)) ''count'' = Some (Some 0)"
    by (simp add: get_def p d)
  from t4 have c2: "map_of (obj (parseMap ?km [(''count'', ''zz''), (''page'', ''zz'')]
      None None)) ''page'' = Some None"
    by (simp add: get_def p d)
  from h1 h2 h3 d hit1 a1 a2 miss1 a3 a4 hit2 b1 miss2 b2 b3 p(2,3) c1 c2 show ?thesis by (intro conjI)
qed

lemma get_searchParams_delete [simp]:
  "get (searchParams_delete k es) k' = (if k' = k then None else get es k')"
  by (induction es) (auto simp: get_def searchParams_delete_def)



section \<open>Properties of the update queue\<close>

lemma enqueue_fst [simp]:
  "fst (enqueueQueryStringUpdate k v ser opts q) = map_option ser v"
  by (simp add: enqueueQueryStringUpdate_def Let_def)

lemma enqueue_cache [simp]:
  "flushPromiseCache (snd (enqueueQueryStringUpdate k v ser opts q)) = flushPromiseCache q"
  "promises (snd (enqueueQueryStringUpdate k v ser opts q)) = promises q"
  by (simp_all add: enqueueQueryStringUpdate_def Let_def)

lemma enqueue_pending:
  "map_of (pending (snd (enqueueQueryStringUpdate k v ser opts q))) k' =
     (if k' = k
      then Some \<lparr>serialized = map_option ser v,
                 navigation = (case map_of (pending q) k of
                                 None \<Rightarrow> opts
                               | Some old \<Rightarrow> mergeOptions (navigation old) opts)\<rparr>
      else map_of (pending q) k')"
  by (simp add: enqueueQueryStringUpdate_def Let_def update_conv')

lemma enqueue_keys:
  "fst ` set (pending (snd (enqueueQueryStringUpdate k v ser opts q))) = insert k (fst ` set (pending q))"
  by (simp add: enqueueQueryStringUpdate_def Let_def dom_update)

lemma enqueue_distinct:
  "distinct (map fst (pending q)) \<Longrightarrow>
   distinct (map fst (pending (snd (enqueueQueryStringUpdate k v ser opts q))))"
  by (simp add: enqueueQueryStringUpdate_def Let_def distinct_update)


lemma enqueueAll_cache [simp]:
  "flushPromiseCache (enqueueAll calls q) = flushPromiseCache q"
  unfolding enqueueAll_def
  by (induction calls arbitrary: q) simp_all

lemma enqueueAll_append:
  "enqueueAll (cs @ cs') q = enqueueAll cs' (enqueueAll cs q)"
  by (simp add: enqueueAll_def)



lemma map_of_filter_key:
  "map_of (filter (\<lambda>e. fst e \<noteq> k) es) k' = (if k' = k then None else map_of es k')"
  by (induction es) auto

lemma get_searchParams_set [simp]:
  "get (searchParams_set k v es) k' = (if k' = k then Some v else get es k')"
  by (induction es) (auto simp: get_def map_of_filter_key)





section \<open>Properties of one iteration of the update loop\<close>

lemma deliver_static [simp]:
  "keyMap (deliver k payload b) = keyMap b"
  "group (deliver k payload b) = group b"
  "subscribed (deliver k payload b) = subscribed b"
  by (simp_all add: deliver_def syncHandler_def Let_def split: option.splits)

lemma deliver_other_key:
  assumes "k' \<noteq> k"
  shows "map_of (stateRef (deliver k payload b)) k' = map_of (stateRef b) k'"
    and "map_of (queryRef (deliver k payload b)) k' = map_of (queryRef b) k'"
  using assms by (simp_all add: deliver_def syncHandler_def Let_def update_conv' split: option.splits)

lemma deliver_same_key:
  assumes "subscribed b" "map_of (keyMap b) k = Some px"
  shows "map_of (stateRef (deliver k payload b)) k = Some (nullish (state payload) (defaultValue px))"
    and "map_of (queryRef (deliver k payload b)) k = Some (query payload)"
    and "internalState (deliver k payload b) = stateRef (deliver k payload b)"
  using assms by (simp_all add: deliver_def syncHandler_def Let_def update_conv')

lemma emit_frame [simp]:
  "location (emit k payload w) = location w"
  "updateQueue (emit k payload w) = updateQueue w"
  "length (hooks (emit k payload w)) = length (hooks w)"
  "trace (emit k payload w) = trace w @ [Emitted k payload]"
  by (simp_all add: emit_def)

lemma emit_nth [simp]:
  "x < length (hooks w) \<Longrightarrow> hooks (emit k payload w) ! x = deliver k payload (hooks w ! x)"
  by (simp add: emit_def)

lemma keyMapProperty_own [simp]:
  "map_of km k = Some parser \<Longrightarrow> keyMapProperty km k = Some parser"
  by (simp add: keyMapProperty_def)

lemma updateEntry_unmanaged:
  "keyMapProperty (keyMap (hooks w ! i)) (fst e) = None \<Longrightarrow> updateEntry String i callOptions e w = w"
  by (simp add: updateEntry_def Let_def)

lemma updateEntry_cases:
  obtains (unmanaged) "keyMapProperty (keyMap (hooks w ! i)) (fst e) = None"
      "updateEntry String i callOptions e w = w"
  | (managed) parser v s where "keyMapProperty (keyMap (hooks w ! i)) (fst e) = Some parser"
      "v = substituteDefault callOptions parser (group (hooks w ! i)) (snd e)"
      "s = map_option (orDefault (serialize parser) String) v"
      "updateEntry String i callOptions e w =
         emit (fst e) \<lparr>state = v, query = s\<rparr>
           (w\<lparr>updateQueue := snd (enqueueQueryStringUpdate (fst e) v (orDefault (serialize parser) String)
                  (resolveOptions callOptions parser (group (hooks w ! i))) (updateQueue w)),
              hooks := (hooks w)[i := (hooks w ! i)\<lparr>queryRef := AList.update (fst e) s (queryRef (hooks w ! i))\<rparr>],
              trace := trace w @ [Enqueued (fst e) s]\<rparr>)"
proof (cases "keyMapProperty (keyMap (hooks w ! i)) (fst e)")
  case None
  then show ?thesis by (intro unmanaged) (simp_all add: updateEntry_def Let_def)
next
  case (Some parser)
  then show ?thesis by (intro managed[of parser]) (simp_all add: updateEntry_def Let_def getProp_update)
qed

lemma updateEntry_frame [simp]:
  "location (updateEntry String i callOptions e w) = location w"
  "length (hooks (updateEntry String i callOptions e w)) = length (hooks w)"
  "flushPromiseCache (updateQueue (updateEntry String i callOptions e w)) = flushPromiseCache (updateQueue w)"
  "promises (updateQueue (updateEntry String i callOptions e w)) = promises (updateQueue w)"
  by (cases rule: updateEntry_cases[of w i e String callOptions]; simp)+

lemma updateEntry_distinct:
  "distinct (map fst (pending (updateQueue w))) \<Longrightarrow>
   distinct (map fst (pending (updateQueue (updateEntry String i callOptions e w))))"
  by (cases rule: updateEntry_cases[of w i e String callOptions]) (simp_all add: enqueue_distinct)

lemma updateEntry_nth:
  assumes "x < length (hooks w)"
  shows "hooks (updateEntry String i callOptions e w) ! x =
    (case keyMapProperty (keyMap (hooks w ! i)) (fst e) of
       None \<Rightarrow> hooks w ! x
     | Some parser \<Rightarrow>
         deliver (fst e)
           \<lparr>state = substituteDefault callOptions parser (group (hooks w ! i)) (snd e),
            query = map_option (orDefault (serialize parser) String)
                      (substituteDefault callOptions parser (group (hooks w ! i)) (snd e))\<rparr>
           (if x = i
            then (hooks w ! i)\<lparr>queryRef := AList.update (fst e)
                   (map_option (orDefault (serialize parser) String)
                      (substituteDefault callOptions parser (group (hooks w ! i)) (snd e)))
                   (queryRef (hooks w ! i))\<rparr>
            else hooks w ! x))"
  using assms
  by (cases rule: updateEntry_cases[of w i e String callOptions]) (simp_all add: nth_list_update)

lemma updateEntry_static:
  assumes "x < length (hooks w)"
  shows "keyMap (hooks (updateEntry String i callOptions e w) ! x) = keyMap (hooks w ! x)"
    and "group (hooks (updateEntry String i callOptions e w) ! x) = group (hooks w ! x)"
    and "subscribed (hooks (updateEntry String i callOptions e w) ! x) = subscribed (hooks w ! x)"
  by (simp_all add: updateEntry_nth[OF assms] split: option.splits)

lemma updateEntry_other_key:
  assumes "k' \<noteq> fst e"
  shows "map_of (pending (updateQueue (updateEntry String i callOptions e w))) k'
           = map_of (pending (updateQueue w)) k'"
    and "x < length (hooks w) \<Longrightarrow>
         map_of (stateRef (hooks (updateEntry String i callOptions e w) ! x)) k'
           = map_of (stateRef (hooks w ! x)) k'"
    and "x < length (hooks w) \<Longrightarrow>
         map_of (queryRef (hooks (updateEntry String i callOptions e w) ! x)) k'
           = map_of (queryRef (hooks w ! x)) k'"
proof -
  show "map_of (pending (updateQueue (updateEntry String i callOptions e w))) k'
           = map_of (pending (updateQueue w)) k'"
    using assms
    by (cases rule: updateEntry_cases[of w i e String callOptions]) (simp_all add: enqueue_pending)
  show "map_of (stateRef (hooks (updateEntry String i callOptions e w) ! x)) k'
           = map_of (stateRef (hooks w ! x)) k'" if "x < length (hooks w)"
    using assms by (simp add: updateEntry_nth[OF that] deliver_other_key split: option.splits)
  show "map_of (queryRef (hooks (updateEntry String i callOptions e w) ! x)) k'
           = map_of (queryRef (hooks w ! x)) k'" if "x < length (hooks w)"
    using assms by (simp add: updateEntry_nth[OF that] deliver_other_key update_conv' split: option.splits)
qed

lemma updateEntry_trace:
  "trace (updateEntry String i callOptions e w) = trace w @
     (case keyMapProperty (keyMap (hooks w ! i)) (fst e) of
        None \<Rightarrow> []
      | Some parser \<Rightarrow>
          [Enqueued (fst e) (map_option (orDefault (serialize parser) String)
             (substituteDefault callOptions parser (group (hooks w ! i)) (snd e))),
           Emitted (fst e)
             \<lparr>state = substituteDefault callOptions parser (group (hooks w ! i)) (snd e),
              query = map_option (orDefault (serialize parser) String)
                        (substituteDefault callOptions parser (group (hooks w ! i)) (snd e))\<rparr>])"
  by (cases rule: updateEntry_cases[of w i e String callOptions]) simp_all

lemma updateEntry_same_key:
  assumes "map_of (keyMap (hooks w ! i)) k = Some parser"
  shows "map_of (pending (updateQueue (updateEntry String i callOptions (k, v) w))) k =
           Some \<lparr>serialized = map_option (orDefault (serialize parser) String)
                    (substituteDefault callOptions parser (group (hooks w ! i)) v),
                 navigation = (case map_of (pending (updateQueue w)) k of
                     None \<Rightarrow> resolveOptions callOptions parser (group (hooks w ! i))
                   | Some old \<Rightarrow> mergeOptions (navigation old)
                       (resolveOptions callOptions parser (group (hooks w ! i))))\<rparr>"
    and "x < length (hooks w) \<Longrightarrow> subscribed (hooks w ! x) \<Longrightarrow>
         map_of (keyMap (hooks w ! x)) k = Some px \<Longrightarrow>
         map_of (stateRef (hooks (updateEntry String i callOptions (k, v) w) ! x)) k
           = Some (nullish (substituteDefault callOptions parser (group (hooks w ! i)) v) (defaultValue px)) \<and>
         map_of (queryRef (hooks (updateEntry String i callOptions (k, v) w) ! x)) k
           = Some (map_option (orDefault (serialize parser) String)
                    (substituteDefault callOptions parser (group (hooks w ! i)) v)) \<and>
         internalState (hooks (updateEntry String i callOptions (k, v) w) ! x)
           = stateRef (hooks (updateEntry String i callOptions (k, v) w) ! x)"
    and "i < length (hooks w) \<Longrightarrow>
         map_of (queryRef (hooks (updateEntry String i callOptions (k, v) w) ! i)) k
           = Some (map_option (orDefault (serialize parser) String)
                    (substituteDefault callOptions parser (group (hooks w ! i)) v))"
proof -
  show "map_of (pending (updateQueue (updateEntry String i callOptions (k, v) w))) k =
           Some \<lparr>serialized = map_option (orDefault (serialize parser) String)
                    (substituteDefault callOptions parser (group (hooks w ! i)) v),
                 navigation = (case map_of (pending (updateQueue w)) k of
                     None \<Rightarrow> resolveOptions callOptions parser (group (hooks w ! i))
                   | Some old \<Rightarrow> mergeOptions (navigation old)
                       (resolveOptions callOptions parser (group (hooks w ! i))))\<rparr>"
    using assms by (simp add: updateEntry_def Let_def enqueue_pending)
  show "map_of (stateRef (hooks (updateEntry String i callOptions (k, v) w) ! x)) k
           = Some (nullish (substituteDefault callOptions parser (group (hooks w ! i)) v) (defaultValue px)) \<and>
         map_of (queryRef (hooks (updateEntry String i callOptions (k, v) w) ! x)) k
           = Some (map_option (orDefault (serialize parser) String)
                    (substituteDefault callOptions parser (group (hooks w ! i)) v)) \<and>
         internalState (hooks (updateEntry String i callOptions (k, v) w) ! x)
           = stateRef (hooks (updateEntry String i callOptions (k, v) w) ! x)"
    if x: "x < length (hooks w)" and s: "subscribed (hooks w ! x)"
      and px: "map_of (keyMap (hooks w ! x)) k = Some px"
  proof -
    let ?v = "substituteDefault callOptions parser (group (hooks w ! i)) v"
    let ?s = "map_option (orDefault (serialize parser) String) ?v"
    let ?b = "if x = i then (hooks w ! i)\<lparr>queryRef := AList.update k ?s (queryRef (hooks w ! i))\<rparr>
              else hooks w ! x"
    have n: "hooks (updateEntry String i callOptions (k, v) w) ! x
               = deliver k \<lparr>state = ?v, query = ?s\<rparr> ?b"
      using updateEntry_nth[OF x, of String i callOptions "(k, v)"] assms by simp
    have b: "subscribed ?b" "map_of (keyMap ?b) k = Some px"
      using s px by auto
    show ?thesis
      unfolding n using deliver_same_key[OF b, of "\<lparr>state = ?v, query = ?s\<rparr>"] by simp
  qed
  show "map_of (queryRef (hooks (updateEntry String i callOptions (k, v) w) ! i)) k
           = Some (map_option (orDefault (serialize parser) String)
                    (substituteDefault callOptions parser (group (hooks w ! i)) v))"
    if i: "i < length (hooks w)"
    using assms
    by (simp add: updateEntry_nth[OF i] deliver_def syncHandler_def Let_def update_conv' split: option.splits)
qed


section \<open>Properties of the update loop\<close>

lemma updateLoop_frame [simp]:
  "location (fold (updateEntry String i callOptions) es w) = location w"
  "length (hooks (fold (updateEntry String i callOptions) es w)) = length (hooks w)"
  "flushPromiseCache (updateQueue (fold (updateEntry String i callOptions) es w))
     = flushPromiseCache (updateQueue w)"
  "promises (updateQueue (fold (updateEntry String i callOptions) es w)) = promises (updateQueue w)"
  by (induction es arbitrary: w; simp)+

lemma updateLoop_distinct:
  "distinct (map fst (pending (updateQueue w))) \<Longrightarrow>
   distinct (map fst (pending (updateQueue (fold (updateEntry String i callOptions) es w))))"
  by (induction es arbitrary: w) (simp_all add: updateEntry_distinct)

lemma updateLoop_static:
  assumes "x < length (hooks w)"
  shows "keyMap (hooks (fold (updateEntry String i callOptions) es w) ! x) = keyMap (hooks w ! x)"
    and "group (hooks (fold (updateEntry String i callOptions) es w) ! x) = group (hooks w ! x)"
    and "subscribed (hooks (fold (updateEntry String i callOptions) es w) ! x) = subscribed (hooks w ! x)"
  using assms by (induction es arbitrary: w; simp add: updateEntry_static)+

lemma updateLoop_other_key:
  assumes "k \<notin> fst ` set es"
  shows "map_of (pending (updateQueue (fold (updateEntry String i callOptions) es w))) k
           = map_of (pending (updateQueue w)) k"
    and "x < length (hooks w) \<Longrightarrow>
         map_of (stateRef (hooks (fold (updateEntry String i callOptions) es w) ! x)) k
           = map_of (stateRef (hooks w ! x)) k"
    and "x < length (hooks w) \<Longrightarrow>
         map_of (queryRef (hooks (fold (updateEntry String i callOptions) es w) ! x)) k
           = map_of (queryRef (hooks w ! x)) k"
  using assms by (induction es arbitrary: w; simp add: updateEntry_other_key)+

lemma updateLoop_unmanaged:
  assumes "i < length (hooks w)" "keyMapProperty (keyMap (hooks w ! i)) k = None"
  shows "map_of (pending (updateQueue (fold (updateEntry String i callOptions) es w))) k
           = map_of (pending (updateQueue w)) k \<and>
         (\<forall>x < length (hooks w).
            map_of (stateRef (hooks (fold (updateEntry String i callOptions) es w) ! x)) k
              = map_of (stateRef (hooks w ! x)) k \<and>
            map_of (queryRef (hooks (fold (updateEntry String i callOptions) es w) ! x)) k
              = map_of (queryRef (hooks w ! x)) k)"
  using assms
proof (induction es arbitrary: w)
  case Nil
  then show ?case by simp
next
  case (Cons e es)
  let ?w = "updateEntry String i callOptions e w"
  have a: "i < length (hooks ?w)" using Cons.prems(1) by simp
  have b: "keyMapProperty (keyMap (hooks ?w ! i)) k = None"
    using Cons.prems by (simp add: updateEntry_static)
  note IH = Cons.IH[OF a b]
  have step: "map_of (pending (updateQueue ?w)) k = map_of (pending (updateQueue w)) k \<and>
    (\<forall>x < length (hooks w).
       map_of (stateRef (hooks ?w ! x)) k = map_of (stateRef (hooks w ! x)) k \<and>
       map_of (queryRef (hooks ?w ! x)) k = map_of (queryRef (hooks w ! x)) k)"
  proof (cases "fst e = k")
    case True
    with Cons.prems(2) have "?w = w" by (simp add: updateEntry_unmanaged)
    then show ?thesis by simp
  next
    case False
    then have "k \<noteq> fst e" by blast
    then show ?thesis by (simp add: updateEntry_other_key)
  qed
  from IH step show ?case by simp
qed


lemma deliver_internalState:
  "internalState b = stateRef b \<Longrightarrow> internalState (deliver k payload b) = stateRef (deliver k payload b)"
  by (simp add: deliver_def syncHandler_def Let_def split: option.splits)

lemma updateEntry_internalState:
  assumes "x < length (hooks w)" "internalState (hooks w ! x) = stateRef (hooks w ! x)"
  shows "internalState (hooks (updateEntry String i callOptions e w) ! x)
           = stateRef (hooks (updateEntry String i callOptions e w) ! x)"
  using assms(2)
  by (auto simp add: updateEntry_nth[OF assms(1)] deliver_internalState split: option.splits)

lemma updateLoop_internalState:
  assumes "x < length (hooks w)" "internalState (hooks w ! x) = stateRef (hooks w ! x)"
  shows "internalState (hooks (fold (updateEntry String i callOptions) es w) ! x)
           = stateRef (hooks (fold (updateEntry String i callOptions) es w) ! x)"
  using assms by (induction es arbitrary: w) (simp_all add: updateEntry_internalState)

lemma merged_navigation:
  assumes "nav = (case old of None \<Rightarrow> resolveOptions callOptions parser g
                  | Some pu \<Rightarrow> mergeOptions (navigation pu) (resolveOptions callOptions parser g))"
  shows "history nav = history (resolveOptions callOptions parser g)"
    and "scroll nav = scroll (resolveOptions callOptions parser g)"
    and "shallow nav = shallow (resolveOptions callOptions parser g)"
    and "throttleMs nav = throttleMs (resolveOptions callOptions parser g)"
    and "startTransition nav = nullish (startTransition (resolveOptions callOptions parser g))
           (case old of None \<Rightarrow> None | Some pu \<Rightarrow> startTransition (navigation pu))"
  using assms
  by (cases old; simp add: mergeOptions_def resolveOptions_def nullish_def split: option.splits)+

lemma updateLoop_same_key:
  assumes i: "i < length (hooks w)"
    and parser: "map_of (keyMap (hooks w ! i)) k = Some parser"
    and es: "es = pre @ (k, v) # post" and post: "k \<notin> fst ` set post"
  shows "\<exists>(old :: _ PendingUpdate option) pu.
           map_of (pending (updateQueue (fold (updateEntry String i callOptions) es w))) k = Some pu \<and>
           serialized pu = map_option (orDefault (serialize parser) String)
                             (substituteDefault callOptions parser (group (hooks w ! i)) v) \<and>
           navigation pu = (case old of
               None \<Rightarrow> resolveOptions callOptions parser (group (hooks w ! i))
             | Some pu' \<Rightarrow> mergeOptions (navigation pu')
                 (resolveOptions callOptions parser (group (hooks w ! i))))"
    and "map_of (queryRef (hooks (fold (updateEntry String i callOptions) es w) ! i)) k
           = Some (map_option (orDefault (serialize parser) String)
                    (substituteDefault callOptions parser (group (hooks w ! i)) v))"
    and "x < length (hooks w) \<Longrightarrow> subscribed (hooks w ! x) \<Longrightarrow>
         map_of (keyMap (hooks w ! x)) k = Some px \<Longrightarrow>
         map_of (stateRef (hooks (fold (updateEntry String i callOptions) es w) ! x)) k
           = Some (nullish (substituteDefault callOptions parser (group (hooks w ! i)) v) (defaultValue px)) \<and>
         map_of (queryRef (hooks (fold (updateEntry String i callOptions) es w) ! x)) k
           = Some (map_option (orDefault (serialize parser) String)
                    (substituteDefault callOptions parser (group (hooks w ! i)) v)) \<and>
         internalState (hooks (fold (updateEntry String i callOptions) es w) ! x)
           = stateRef (hooks (fold (updateEntry String i callOptions) es w) ! x)"
proof -
  define w1 where "w1 = fold (updateEntry String i callOptions) pre w"
  define w2 where "w2 = updateEntry String i callOptions (k, v) w1"
  have run: "fold (updateEntry String i callOptions) es w = fold (updateEntry String i callOptions) post w2"
    by (simp add: es w1_def w2_def)
  have len1: "length (hooks w1) = length (hooks w)" and len2: "length (hooks w2) = length (hooks w)"
    by (simp_all add: w1_def w2_def)
  have i1: "i < length (hooks w1)" using i len1 by simp
  have st1: "keyMap (hooks w1 ! i) = keyMap (hooks w ! i)" "group (hooks w1 ! i) = group (hooks w ! i)"
    unfolding w1_def using i by (simp_all add: updateLoop_static)
  have parser1: "map_of (keyMap (hooks w1 ! i)) k = Some parser"
    using parser st1 by simp
  note same = updateEntry_same_key[where String = String and callOptions = callOptions and v = v,
      OF parser1, folded w2_def, unfolded st1]
  show "\<exists>(old :: _ PendingUpdate option) pu.
           map_of (pending (updateQueue (fold (updateEntry String i callOptions) es w))) k = Some pu \<and>
           serialized pu = map_option (orDefault (serialize parser) String)
                             (substituteDefault callOptions parser (group (hooks w ! i)) v) \<and>
           navigation pu = (case old of
               None \<Rightarrow> resolveOptions callOptions parser (group (hooks w ! i))
             | Some pu' \<Rightarrow> mergeOptions (navigation pu')
                 (resolveOptions callOptions parser (group (hooks w ! i))))"
    unfolding run updateLoop_other_key(1)[OF post] same(1)
    by (rule exI[of _ "map_of (pending (updateQueue w1)) k"]) simp
  show "map_of (queryRef (hooks (fold (updateEntry String i callOptions) es w) ! i)) k
           = Some (map_option (orDefault (serialize parser) String)
                    (substituteDefault callOptions parser (group (hooks w ! i)) v))"
    unfolding run using updateLoop_other_key(3)[OF post, where x = i and w = w2] same(3)[OF i1] i len2 by simp
  show "map_of (stateRef (hooks (fold (updateEntry String i callOptions) es w) ! x)) k
           = Some (nullish (substituteDefault callOptions parser (group (hooks w ! i)) v) (defaultValue px)) \<and>
         map_of (queryRef (hooks (fold (updateEntry String i callOptions) es w) ! x)) k
           = Some (map_option (orDefault (serialize parser) String)
                    (substituteDefault callOptions parser (group (hooks w ! i)) v)) \<and>
         internalState (hooks (fold (updateEntry String i callOptions) es w) ! x)
           = stateRef (hooks (fold (updateEntry String i callOptions) es w) ! x)"
    if x: "x < length (hooks w)" and s: "subscribed (hooks w ! x)"
      and px: "map_of (keyMap (hooks w ! x)) k = Some px"
  proof -
    have x1: "x < length (hooks w1)" and x2: "x < length (hooks w2)" using x len1 len2 by simp_all
    have s1: "subscribed (hooks w1 ! x)" and px1: "map_of (keyMap (hooks w1 ! x)) k = Some px"
      unfolding w1_def using x s px by (simp_all add: updateLoop_static)
    note at2 = same(2)[OF x1 s1 px1]
    from at2 have "internalState (hooks w2 ! x) = stateRef (hooks w2 ! x)" by blast
    then have int: "internalState (hooks (fold (updateEntry String i callOptions) post w2) ! x)
        = stateRef (hooks (fold (updateEntry String i callOptions) post w2) ! x)"
      using x2 by (intro updateLoop_internalState)
    show ?thesis
      unfolding run
      using updateLoop_other_key(2,3)[OF post x2, where String = String and i = i and callOptions = callOptions]
        at2 int by simp
  qed
qed

lemma updateLoop_trace:
  "\<exists>evs. trace (fold (updateEntry String i callOptions) es w) = trace w @ evs \<and>
     resolutionsOf p evs = [] \<and>
     (\<forall>e \<in> set evs. \<exists>k. eventKey e = Some k \<and> k \<in> fst ` set es \<and>
         (i < length (hooks w) \<longrightarrow> keyMapProperty (keyMap (hooks w ! i)) k \<noteq> None))"
proof (induction es arbitrary: w)
  case Nil
  then show ?case by simp
next
  case (Cons e es)
  let ?w = "updateEntry String i callOptions e w"
  from Cons.IH[of ?w] obtain evs where evs: "trace (fold (updateEntry String i callOptions) es ?w) = trace ?w @ evs"
    "resolutionsOf p evs = []"
    "\<forall>e' \<in> set evs. \<exists>k. eventKey e' = Some k \<and> k \<in> fst ` set es \<and>
         (i < length (hooks ?w) \<longrightarrow> keyMapProperty (keyMap (hooks ?w ! i)) k \<noteq> None)"
    by blast
  obtain evs0 where evs0: "trace ?w = trace w @ evs0" "resolutionsOf p evs0 = []"
    "\<forall>e' \<in> set evs0. eventKey e' = Some (fst e) \<and> keyMapProperty (keyMap (hooks w ! i)) (fst e) \<noteq> None"
    by (cases "keyMapProperty (keyMap (hooks w ! i)) (fst e)") (simp_all add: updateEntry_trace)
  have r: "resolutionsOf p (evs0 @ evs) = []"
    using evs0(2) evs(2) by (induction evs0 rule: resolutionsOf.induct) (simp_all split: if_splits)
  show ?case
  proof (intro exI[of _ "evs0 @ evs"] conjI ballI)
    show "trace (fold (updateEntry String i callOptions) (e # es) w) = trace w @ evs0 @ evs"
      using evs(1) evs0(1) by simp
    show "resolutionsOf p (evs0 @ evs) = []" by (rule r)
    fix e' assume "e' \<in> set (evs0 @ evs)"
    then consider "e' \<in> set evs0" | "e' \<in> set evs" by auto
    then show "\<exists>k. eventKey e' = Some k \<and> k \<in> fst ` set (e # es) \<and>
         (i < length (hooks w) \<longrightarrow> keyMapProperty (keyMap (hooks w ! i)) k \<noteq> None)"
    proof cases
      case 1
      with evs0(3) show ?thesis by auto
    next
      case 2
      with evs(3) obtain k where k: "eventKey e' = Some k" "k \<in> fst ` set es"
        "i < length (hooks ?w) \<longrightarrow> keyMapProperty (keyMap (hooks ?w ! i)) k \<noteq> None" by blast
      then show ?thesis by (auto simp: updateEntry_static)
    qed
  qed
qed

section \<open>Properties of the update function\<close>

lemma scheduleFlushToURL_result:
  "fst (scheduleFlushToURL f t q) = (case flushPromiseCache q of Some p \<Rightarrow> p | None \<Rightarrow> promises q)"
  "flushPromiseCache (snd (scheduleFlushToURL f t q)) = Some (fst (scheduleFlushToURL f t q))"
  "pending (snd (scheduleFlushToURL f t q)) = pending q"
  "promises (snd (scheduleFlushToURL f t q))
     = (case flushPromiseCache q of Some p \<Rightarrow> promises q | None \<Rightarrow> Suc (promises q))"
  "lastFlushedAt (snd (scheduleFlushToURL f t q)) = lastFlushedAt q"
  "flushTimer (snd (scheduleFlushToURL f t q))
     = (case flushPromiseCache q of Some p \<Rightarrow> flushTimer q | None \<Rightarrow> Some (t + flushDelay f t q))"
  by (simp_all add: scheduleFlushToURL_def split: option.splits)

lemma update_result:
  "fst (update String i su callOptions w)
     = (case flushPromiseCache (updateQueue w) of Some p \<Rightarrow> p | None \<Rightarrow> promises (updateQueue w))"
  "flushPromiseCache (updateQueue (snd (update String i su callOptions w)))
     = Some (fst (update String i su callOptions w))"
  "promises (updateQueue (snd (update String i su callOptions w)))
     = (case flushPromiseCache (updateQueue w) of
          Some p \<Rightarrow> promises (updateQueue w) | None \<Rightarrow> Suc (promises (updateQueue w)))"
  by (simp_all add: update_def Let_def scheduleFlushToURL_result split: option.splits)

lemma update_world:
  "pending (updateQueue (snd (update String i su callOptions w)))
     = pending (updateQueue (fold (updateEntry String i callOptions) (newStateOf (hooks w ! i) su) w))"
  "hooks (snd (update String i su callOptions w))
     = hooks (fold (updateEntry String i callOptions) (newStateOf (hooks w ! i) su) w)"
  "location (snd (update String i su callOptions w)) = location w"
  "trace (snd (update String i su callOptions w))
     = trace (fold (updateEntry String i callOptions) (newStateOf (hooks w ! i) su) w)
         @ [Scheduled (fst (update String i su callOptions w))]"
  by (simp_all add: update_def Let_def scheduleFlushToURL_result)

lemma update_length [simp]:
  "length (hooks (snd (update String i su callOptions w))) = length (hooks w)"
  by (simp add: update_world)

lemma update_distinct:
  "distinct (map fst (pending (updateQueue w))) \<Longrightarrow>
   distinct (map fst (pending (updateQueue (snd (update String i su callOptions w)))))"
  by (simp add: update_world updateLoop_distinct)

lemma update_static:
  assumes "x < length (hooks w)"
  shows "keyMap (hooks (snd (update String i su callOptions w)) ! x) = keyMap (hooks w ! x)"
    and "group (hooks (snd (update String i su callOptions w)) ! x) = group (hooks w ! x)"
    and "subscribed (hooks (snd (update String i su callOptions w)) ! x) = subscribed (hooks w ! x)"
  using assms by (simp_all add: update_world updateLoop_static)

lemma entry_split:
  assumes "k \<in> fst ` set es"
  obtains pre v post where "es = pre @ (k, v) # post" "k \<notin> fst ` set post"
proof -
  from assms have "\<exists>e \<in> set es. fst e = k" by auto
  then obtain pre e post where "es = pre @ e # post" "fst e = k" "\<forall>z \<in> set post. fst z \<noteq> k"
    by (rule split_list_last_propE)
  then show thesis by (intro that[of pre "snd e" post]) auto
qed

lemma entry_split_distinct:
  assumes "distinct (map fst es)" "(k, v) \<in> set es"
  obtains pre post where "es = pre @ (k, v) # post" "k \<notin> fst ` set post"
proof -
  from assms(2) obtain pre post where es: "es = pre @ (k, v) # post"
    by (auto simp: in_set_conv_decomp)
  with assms(1) have "k \<notin> fst ` set post" by auto
  with es show thesis by (rule that)
qed

lemma flushToURL_armed:
  assumes "flushPromiseCache (updateQueue w) = Some p"
  shows "location (flushToURL w) = applyPending (pending (updateQueue w)) (location w)"
    and "trace (flushToURL w) = trace w @
           [UpdateUrl (applyPending (pending (updateQueue w)) (location w)) (combinedOptions (pending (updateQueue w))),
            Resolved p (applyPending (pending (updateQueue w)) (location w))]"
    and "pending (updateQueue (flushToURL w)) = []"
    and "flushPromiseCache (updateQueue (flushToURL w)) = None"
    and "promises (updateQueue (flushToURL w)) = promises (updateQueue w)"
    and "hooks (flushToURL w) = hooks w"
  using assms by (simp_all add: flushToURL_def Let_def)


lemma update_same_key:
  assumes i: "i < length (hooks w)"
    and parser: "map_of (keyMap (hooks w ! i)) k = Some parser"
    and es: "newStateOf (hooks w ! i) su = pre @ (k, v) # post" and post: "k \<notin> fst ` set post"
  shows "\<exists>(old :: _ PendingUpdate option) pu.
           map_of (pending (updateQueue (snd (update String i su callOptions w)))) k = Some pu \<and>
           serialized pu = map_option (orDefault (serialize parser) String)
                             (substituteDefault callOptions parser (group (hooks w ! i)) v) \<and>
           navigation pu = (case old of
               None \<Rightarrow> resolveOptions callOptions parser (group (hooks w ! i))
             | Some pu' \<Rightarrow> mergeOptions (navigation pu')
                 (resolveOptions callOptions parser (group (hooks w ! i))))"
    and "map_of (queryRef (hooks (snd (update String i su callOptions w)) ! i)) k
           = Some (map_option (orDefault (serialize parser) String)
                    (substituteDefault callOptions parser (group (hooks w ! i)) v))"
    and "x < length (hooks w) \<Longrightarrow> subscribed (hooks w ! x) \<Longrightarrow>
         map_of (keyMap (hooks w ! x)) k = Some px \<Longrightarrow>
         map_of (stateRef (hooks (snd (update String i su callOptions w)) ! x)) k
           = Some (nullish (substituteDefault callOptions parser (group (hooks w ! i)) v) (defaultValue px)) \<and>
         map_of (queryRef (hooks (snd (update String i su callOptions w)) ! x)) k
           = Some (map_option (orDefault (serialize parser) String)
                    (substituteDefault callOptions parser (group (hooks w ! i)) v)) \<and>
         internalState (hooks (snd (update String i su callOptions w)) ! x)
           = stateRef (hooks (snd (update String i su callOptions w)) ! x)"
  unfolding update_world
  using updateLoop_same_key[OF i parser es post, where String = String and callOptions = callOptions]
  by blast+

lemma update_queuedValue:
  assumes "i < length (hooks w)" "map_of (keyMap (hooks w ! i)) k = Some parser"
    "newStateOf (hooks w ! i) su = pre @ (k, v) # post" "k \<notin> fst ` set post"
  shows "queuedValue (updateQueue (snd (update String i su callOptions w))) k
           = Some (map_option (orDefault (serialize parser) String)
                    (substituteDefault callOptions parser (group (hooks w ! i)) v))"
  using update_same_key(1)[OF assms, where String = String and callOptions = callOptions]
  by (auto simp: queuedValue_def)




section \<open>Clearing every managed key\<close>



lemma substituteDefault_null [simp]:
  "substituteDefault callOptions parser g None = None"
  by (simp add: substituteDefault_def)

lemma update_unmanaged:
  assumes "i < length (hooks w)" "keyMapProperty (keyMap (hooks w ! i)) k = None"
  shows "map_of (pending (updateQueue (snd (update String i su callOptions w)))) k
           = map_of (pending (updateQueue w)) k"
    and "x < length (hooks w) \<Longrightarrow>
         map_of (stateRef (hooks (snd (update String i su callOptions w)) ! x)) k
           = map_of (stateRef (hooks w ! x)) k"
    and "x < length (hooks w) \<Longrightarrow>
         map_of (queryRef (hooks (snd (update String i su callOptions w)) ! x)) k
           = map_of (queryRef (hooks w ! x)) k"
  unfolding update_world
  using updateLoop_unmanaged[OF assms, where String = String and callOptions = callOptions]
  by blast+








lemma getProp_eq:
  "map_of al k = Some v \<Longrightarrow> getProp al k = v"
  by (simp add: getProp_def split: option.splits)

text \<open>
  C10. An updater function passed to the update function of a subscribed binding is
  applied to \<open>stateRef.current\<close>, and that state already holds, for a key the binding
  manages, the value written by an earlier update call, made through this binding or
  through another one, with no render in between: the second call is the call with the
  mapping the updater returns on that state.
\<close>

theorem updater_sees_earlier_writes:
  assumes "i < length (hooks w)" and "j < length (hooks w)"
    and "subscribed (hooks w ! i)"
    and "map_of (keyMap (hooks w ! i)) k = Some parser"
    and "map_of (keyMap (hooks w ! j)) k = Some parser'"
    and "distinct (map fst (newStateOf (hooks w ! j) su))"
    and "(k, v) \<in> set (newStateOf (hooks w ! j) su)"
  shows "getProp (stateRef (hooks (snd (update String j su callOptions w)) ! i)) k
           = nullish (substituteDefault callOptions parser' (group (hooks w ! j)) v) (defaultValue parser) \<and>
         newStateOf (hooks (snd (update String j su callOptions w)) ! i) (UpdaterFn f)
           = f (stateRef (hooks (snd (update String j su callOptions w)) ! i)) \<and>
         update String i (UpdaterFn f) callOptions' (snd (update String j su callOptions w))
           = update String i (PartialValues (f (stateRef (hooks (snd (update String j su callOptions w)) ! i))))
               callOptions' (snd (update String j su callOptions w))"
proof (intro conjI)
  from assms(6,7) obtain pre post where es: "newStateOf (hooks w ! j) su = pre @ (k, v) # post"
    and post: "k \<notin> fst ` set post"
    by (rule entry_split_distinct)
  from update_same_key(3)[OF assms(2,5) es post assms(1,3,4), of String callOptions]
  show "getProp (stateRef (hooks (snd (update String j su callOptions w)) ! i)) k
           = nullish (substituteDefault callOptions parser' (group (hooks w ! j)) v) (defaultValue parser)"
    by (simp add: getProp_eq)
  show "newStateOf (hooks (snd (update String j su callOptions w)) ! i) (UpdaterFn f)
           = f (stateRef (hooks (snd (update String j su callOptions w)) ! i))"
    by (simp add: newStateOf_def)
  show "update String i (UpdaterFn f) callOptions' (snd (update String j su callOptions w))
           = update String i (PartialValues (f (stateRef (hooks (snd (update String j su callOptions w)) ! i))))
               callOptions' (snd (update String j su callOptions w))"
    by (simp add: update_def newStateOf_def)
qed

theorem updater_sees_earlier_writes_witness:
  "(0::nat) < length (hooks exampleWorld) \<and> subscribed (hooks exampleWorld ! 0) \<and>
   map_of (keyMap (hooks exampleWorld ! 0)) ''count'' = Some countKey \<and>
   (''count'', Some 5) \<in> set (newStateOf (hooks exampleWorld ! 0) (PartialValues [(''count'', Some 5)])) \<and>
   getProp (stateRef (hooks exampleWorld ! 0)) ''count'' = Some 0 \<and>
   getProp (stateRef (hooks (snd (update serializeExample 0 (PartialValues [(''count'', Some 5)]) noOptions
      exampleWorld)) ! 0)) ''count'' = Some 5 \<and>
   queuedValue (updateQueue (snd (update serializeExample 0
      (UpdaterFn (\<lambda>old. [(''page'', getProp old ''count'')])) noOptions
      (snd (update serializeExample 0 (PartialValues [(''count'', Some 5)]) noOptions exampleWorld))))) ''page''
     = Some (Some ''5'')"
proof -
  let ?w1 = "snd (update serializeExample 0 (PartialValues [(''count'', Some 5)]) noOptions exampleWorld)"
  let ?f = "\<lambda>old :: int Values. [(''page'', getProp old ''count'')]"
  have h1: "(0::nat) < length (hooks exampleWorld)" by (simp add: exampleWorld_def)
  have h3: "subscribed (hooks exampleWorld ! 0)" by (simp add: exampleWorld_def)
  have h4: "map_of (keyMap (hooks exampleWorld ! 0)) ''count'' = Some countKey"
    by (simp add: exampleWorld_def)
  have h6: "distinct (map fst (newStateOf (hooks exampleWorld ! 0) (PartialValues [(''count'', Some (5::int))])))"
    by (simp add: newStateOf_def)
  have h7: "(''count'', Some 5) \<in> set (newStateOf (hooks exampleWorld ! 0) (PartialValues [(''count'', Some 5)]))"
    by (simp add: newStateOf_def)
  have b: "getProp (stateRef (hooks exampleWorld ! 0)) ''count'' = Some 0"
    by (simp add: exampleWorld_def getProp_def)
  have v: "nullish (substituteDefault noOptions countKey (group (hooks exampleWorld ! 0)) (Some 5))
      (defaultValue countKey) = Some 5"
    by (simp add: substituteDefault_def equalsDefault_def countKey_def nullish_def)
  note t = updater_sees_earlier_writes [OF h1 h1 h3 h4 h4 h6 h7, of serializeExample noOptions ?f noOptions,
      unfolded v]
  from t have c1: "getProp (stateRef (hooks ?w1 ! 0)) ''count'' = Some 5" by blast
  from t have c2: "update serializeExample 0 (UpdaterFn ?f) noOptions ?w1
      = update serializeExample 0 (PartialValues (?f (stateRef (hooks ?w1 ! 0)))) noOptions ?w1"
    by blast
  have g1: "(0::nat) < length (hooks ?w1)" using h1 by simp
  have "map_of (keyMap (hooks exampleWorld ! 0)) ''page'' = Some pageKey"
    by (simp add: exampleWorld_def)
  then have g2: "map_of (keyMap (hooks ?w1 ! 0)) ''page'' = Some pageKey"
    by (simp only: update_static(1)[OF h1])
  have g3: "newStateOf (hooks ?w1 ! 0) (PartialValues (?f (stateRef (hooks ?w1 ! 0))))
      = [] @ (''page'', Some 5) # []"
    by (simp add: newStateOf_def c1)
  have g4: "''page'' \<notin> fst ` set ([] :: (key \<times> int option) list)" by simp
  have s: "map_option (orDefault (serialize pageKey) serializeExample)
      (substituteDefault noOptions pageKey (group (hooks ?w1 ! 0)) (Some 5)) = Some ''5''"
    by (simp add: substituteDefault_def equalsDefault_def pageKey_def orDefault_def serializeExample_def)
  have c3: "queuedValue (updateQueue (snd (update serializeExample 0 (UpdaterFn ?f) noOptions ?w1))) ''page''
      = Some (Some ''5'')"
    unfolding c2 using update_queuedValue[OF g1 g2 g3 g4, of serializeExample noOptions] s by simp
  from h1 h3 h4 h7 b c1 c3 show ?thesis by (intro conjI)
qed

section \<open>Promise handles\<close>

lemma resolutionsOf_append [simp]:
  "resolutionsOf p (xs @ ys) = resolutionsOf p xs @ resolutionsOf p ys"
  by (induction p xs rule: resolutionsOf.induct) simp_all

lemma keyed_events_resolve_nothing:
  "\<forall>e \<in> set evs. eventKey e \<noteq> None \<Longrightarrow> resolutionsOf p evs = []"
  by (induction p evs rule: resolutionsOf.induct) simp_all

lemma keyed_events_below:
  "\<forall>e \<in> set evs. eventKey e \<noteq> None \<Longrightarrow>
   list_all (\<lambda>e. case e of Resolved p search \<Rightarrow> p < n | _ \<Rightarrow> True) evs"
  by (induction evs) (auto split: Event.splits)

lemma resolved_below:
  "list_all (\<lambda>e. case e of Resolved p search \<Rightarrow> p < n | _ \<Rightarrow> True) tr \<Longrightarrow> n \<le> p \<Longrightarrow>
   resolutionsOf p tr = []"
  by (induction p tr rule: resolutionsOf.induct) auto

lemma resolved_below_mono:
  "list_all (\<lambda>e. case e of Resolved p search \<Rightarrow> p < n | _ \<Rightarrow> True) tr \<Longrightarrow> n \<le> m \<Longrightarrow>
   list_all (\<lambda>e. case e of Resolved p search \<Rightarrow> p < m | _ \<Rightarrow> True) tr"
  by (induction tr) (auto split: Event.splits)

lemma update_trace_shape:
  "\<exists>evs. trace (snd (update String i su callOptions w))
            = trace w @ evs @ [Scheduled (fst (update String i su callOptions w))] \<and>
         (\<forall>e \<in> set evs. eventKey e \<noteq> None)"
proof -
  from updateLoop_trace[of String i callOptions "newStateOf (hooks w ! i) su" w 0]
  obtain evs where "trace (fold (updateEntry String i callOptions) (newStateOf (hooks w ! i) su) w) = trace w @ evs"
    "\<forall>e \<in> set evs. \<exists>k. eventKey e = Some k \<and> k \<in> fst ` set (newStateOf (hooks w ! i) su) \<and>
         (i < length (hooks w) \<longrightarrow> keyMapProperty (keyMap (hooks w ! i)) k \<noteq> None)"
    by blast
  then show ?thesis
    unfolding update_world by (intro exI[of _ evs]) auto
qed

lemma promisesFresh_initial:
  "trace w = [] \<Longrightarrow> flushPromiseCache (updateQueue w) = None \<Longrightarrow> promisesFresh w"
  by (simp add: promisesFresh_def)

lemma promisesFresh_unresolved:
  assumes "promisesFresh w"
  shows "resolutionsOf (fst (update String i su callOptions w)) (trace w) = []"
proof (cases "flushPromiseCache (updateQueue w)")
  case None
  with assms show ?thesis
    by (simp add: update_result(1) promisesFresh_def resolved_below)
next
  case (Some p)
  with assms show ?thesis
    by (simp add: update_result(1) promisesFresh_def)
qed

lemma promisesFresh_update:
  assumes "promisesFresh w"
  shows "promisesFresh (snd (update String i su callOptions w))"
    and "resolutionsOf (fst (update String i su callOptions w)) (trace (snd (update String i su callOptions w))) = []"
proof -
  let ?p = "fst (update String i su callOptions w)" and ?w = "snd (update String i su callOptions w)"
  from update_trace_shape[of String i su callOptions w]
  obtain evs where tr: "trace ?w = trace w @ evs @ [Scheduled ?p]" and evs: "\<forall>e \<in> set evs. eventKey e \<noteq> None"
    by blast
  have le: "promises (updateQueue w) \<le> promises (updateQueue ?w)"
    by (simp add: update_result(3) split: option.splits)
  have lt: "?p < promises (updateQueue ?w)"
    using assms by (simp add: update_result(1,3) promisesFresh_def split: option.splits)
  show un: "resolutionsOf ?p (trace ?w) = []"
    by (simp add: tr promisesFresh_unresolved[OF assms] keyed_events_resolve_nothing[OF evs])
  have "list_all (\<lambda>e. case e of Resolved p search \<Rightarrow> p < promises (updateQueue ?w) | _ \<Rightarrow> True) (trace w)"
    using assms le by (auto simp: promisesFresh_def intro: resolved_below_mono)
  then have "list_all (\<lambda>e. case e of Resolved p search \<Rightarrow> p < promises (updateQueue ?w) | _ \<Rightarrow> True) (trace ?w)"
    by (simp add: tr keyed_events_below[OF evs])
  then show "promisesFresh ?w"
    using lt un by (simp add: promisesFresh_def update_result(2))
qed

lemma promisesFresh_flush:
  assumes "promisesFresh w"
  shows "promisesFresh (flushToURL w)"
proof (cases "flushPromiseCache (updateQueue w)")
  case None
  with assms show ?thesis by (simp add: flushToURL_def)
next
  case (Some p)
  with assms show ?thesis
    by (simp add: promisesFresh_def flushToURL_armed[OF Some] cong: Event.case_cong)
qed

lemma render_queue [simp]:
  "updateQueue (render i w) = updateQueue w" "trace (render i w) = trace w"
  "location (render i w) = location w" "length (hooks (render i w)) = length (hooks w)"
  "updateQueue (renderAndSync i w) = updateQueue w" "trace (renderAndSync i w) = trace w"
  "location (renderAndSync i w) = location w" "length (hooks (renderAndSync i w)) = length (hooks w)"
  by (simp_all add: render_def renderAndSync_def)

lemma advance_frame [simp]:
  "updateQueue (advance ms w) = updateQueue w" "trace (advance ms w) = trace w"
  "location (advance ms w) = location w" "hooks (advance ms w) = hooks w"
  "rateLimitFactor (advance ms w) = rateLimitFactor w"
  by (simp_all add: advance_def)

lemma promisesFresh_step:
  "promisesFresh w \<Longrightarrow> promisesFresh (step String a w)"
  by (cases a)
     (simp_all add: promisesFresh_update promisesFresh_flush,
      simp_all add: promisesFresh_def cong: Event.case_cong option.case_cong)

lemma promisesFresh_run:
  "promisesFresh w \<Longrightarrow> promisesFresh (run String acts w)"
  unfolding run_def by (induction acts arbitrary: w) (simp_all add: promisesFresh_step)

lemma step_keeps_cache:
  assumes "flushPromiseCache (updateQueue w) = Some p" "a \<noteq> Flush"
  shows "flushPromiseCache (updateQueue (step String a w)) = Some p"
  using assms by (cases a) (simp_all add: update_result)

lemma run_keeps_cache:
  assumes "flushPromiseCache (updateQueue w) = Some p" "Flush \<notin> set acts"
  shows "flushPromiseCache (updateQueue (run String acts w)) = Some p"
  using assms unfolding run_def
  by (induction acts arbitrary: w) (auto simp: step_keeps_cache)

lemma settled_step:
  assumes "promisesFresh w" "p < promises (updateQueue w)" "flushPromiseCache (updateQueue w) \<noteq> Some p"
  shows "resolutionsOf p (trace (step String a w)) = resolutionsOf p (trace w)"
    and "p < promises (updateQueue (step String a w))"
    and "flushPromiseCache (updateQueue (step String a w)) \<noteq> Some p"
proof -
  show "resolutionsOf p (trace (step String a w)) = resolutionsOf p (trace w)"
  proof (cases a)
    case (Update i su callOptions)
    from update_trace_shape[of String i su callOptions w]
    obtain evs where "trace (snd (update String i su callOptions w))
        = trace w @ evs @ [Scheduled (fst (update String i su callOptions w))]"
      "\<forall>e \<in> set evs. eventKey e \<noteq> None" by blast
    then show ?thesis by (simp add: Update keyed_events_resolve_nothing)
  next
    case Flush
    show ?thesis
    proof (cases "flushPromiseCache (updateQueue w)")
      case None
      then show ?thesis by (simp add: Flush flushToURL_def)
    next
      case (Some q)
      with assms(3) show ?thesis by (simp add: Flush flushToURL_armed[OF Some])
    qed
  qed simp_all
  show "p < promises (updateQueue (step String a w))"
    using assms(2)
    by (cases a) (auto simp: update_result flushToURL_def Let_def split: option.splits)
  show "flushPromiseCache (updateQueue (step String a w)) \<noteq> Some p"
    using assms(2,3)
    by (cases a) (auto simp: update_result flushToURL_def Let_def split: option.splits)
qed

lemma settled_run:
  assumes "promisesFresh w" "p < promises (updateQueue w)" "flushPromiseCache (updateQueue w) \<noteq> Some p"
  shows "resolutionsOf p (trace (run String acts w)) = resolutionsOf p (trace w)"
  using assms unfolding run_def
proof (induction acts arbitrary: w)
  case Nil
  then show ?case by simp
next
  case (Cons a acts)
  from settled_step[OF Cons.prems, of String a] promisesFresh_step[OF Cons.prems(1), of String a]
  show ?case using Cons.IH[of "step String a w"] by simp
qed


lemma flush_resolves:
  assumes "flushPromiseCache (updateQueue w) = Some p" "resolutionsOf p (trace w) = []"
  shows "resolutionsOf p (trace (flushToURL w)) = [location (flushToURL w)]"
  using assms(2) by (simp add: flushToURL_armed[OF assms(1)])

text \<open>
  C1. Starting from a fresh page (no handle cached, nothing has happened) and after any
  run, an update call returns a handle that every later update call returns too, as
  long as no flush has executed in between (other update calls and renders may have);
  the handle is unresolved until the flush, the flush resolves it with the parameters
  of the URL as they are right after the commit, and whatever happens afterwards it is
  never resolved again. Two calls made before the timer fires thus hold one handle,
  resolved by one event with one snapshot.
\<close>

theorem promise_shared_and_resolved_once:
  assumes "trace w0 = []" and "flushPromiseCache (updateQueue w0) = None"
    and "w = run String before w0"
    and "Flush \<notin> set acts"
    and "update String i su callOptions w = (p, w1)"
    and "update String j su' callOptions' (run String acts w1) = (p', w3)"
  shows "p' = p \<and>
         resolutionsOf p (trace w3) = [] \<and>
         flushPromiseCache (updateQueue w3) = Some p \<and>
         resolutionsOf p (trace (flushToURL w3)) = [location (flushToURL w3)] \<and>
         (\<forall>later. resolutionsOf p (trace (run String later (flushToURL w3))) = [location (flushToURL w3)])"
proof -
  have fresh: "promisesFresh w"
    unfolding assms(3) using assms(1,2) by (intro promisesFresh_run promisesFresh_initial)
  have p: "p = fst (update String i su callOptions w)" and w1: "w1 = snd (update String i su callOptions w)"
    using assms(5) by simp_all
  have fresh1: "promisesFresh w1" unfolding w1 using fresh by (rule promisesFresh_update)
  have cache1: "flushPromiseCache (updateQueue w1) = Some p"
    unfolding w1 p by (rule update_result(2))
  let ?w2 = "run String acts w1"
  have fresh2: "promisesFresh ?w2" using fresh1 by (rule promisesFresh_run)
  have cache2: "flushPromiseCache (updateQueue ?w2) = Some p"
    using cache1 assms(4) by (rule run_keeps_cache)
  have p': "p' = fst (update String j su' callOptions' ?w2)"
    and w3: "w3 = snd (update String j su' callOptions' ?w2)"
    using assms(6) by simp_all
  have same: "p' = p" unfolding p' by (simp add: update_result(1) cache2)
  have fresh3: "promisesFresh w3" unfolding w3 using fresh2 by (rule promisesFresh_update)
  have cache3: "flushPromiseCache (updateQueue w3) = Some p"
    unfolding w3 using same p' by (simp add: update_result(2))
  have un3: "resolutionsOf p (trace w3) = []"
    using promisesFresh_update(2)[OF fresh2, of String j su' callOptions'] same p' w3 by simp
  have res: "resolutionsOf p (trace (flushToURL w3)) = [location (flushToURL w3)]"
    using cache3 un3 by (rule flush_resolves)
  have fresh4: "promisesFresh (flushToURL w3)" using fresh3 by (rule promisesFresh_flush)
  have lt: "p < promises (updateQueue (flushToURL w3))"
    using fresh3 cache3 by (simp add: promisesFresh_def flushToURL_armed[OF cache3])
  have nc: "flushPromiseCache (updateQueue (flushToURL w3)) \<noteq> Some p"
    by (simp add: flushToURL_armed[OF cache3])
  have later: "resolutionsOf p (trace (run String later (flushToURL w3))) = [location (flushToURL w3)]" for later
    using settled_run[OF fresh4 lt nc, of String later] res by simp
  from same un3 cache3 res later show ?thesis by blast
qed


theorem promise_shared_and_resolved_once_witness:
  "trace exampleWorld = [] \<and> flushPromiseCache (updateQueue exampleWorld) = None \<and>
   Flush \<notin> set [Update 1 (PartialValues [(''count'', Some 0)]) noOptions, Render 0] \<and>
   fst (update serializeExample 0 (PartialValues [(''count'', Some 5)]) noOptions exampleWorld) = 0 \<and>
   fst (update serializeExample 1 (PartialValues [(''count'', Some 5)]) noOptions
         (run serializeExample [Update 1 (PartialValues [(''count'', Some 0)]) noOptions, Render 0]
            (snd (update serializeExample 0 (PartialValues [(''count'', Some 5)]) noOptions exampleWorld)))) = 0 \<and>
   resolutionsOf 0 (trace (flushToURL (snd (update serializeExample 1 (PartialValues [(''count'', Some 5)]) noOptions
         (run serializeExample [Update 1 (PartialValues [(''count'', Some 0)]) noOptions, Render 0]
            (snd (update serializeExample 0 (PartialValues [(''count'', Some 5)]) noOptions exampleWorld)))))))
     = [location (flushToURL (snd (update serializeExample 1 (PartialValues [(''count'', Some 5)]) noOptions
         (run serializeExample [Update 1 (PartialValues [(''count'', Some 0)]) noOptions, Render 0]
            (snd (update serializeExample 0 (PartialValues [(''count'', Some 5)]) noOptions exampleWorld))))))] \<and>
   location (flushToURL (snd (update serializeExample 1 (PartialValues [(''count'', Some 5)]) noOptions
         (run serializeExample [Update 1 (PartialValues [(''count'', Some 0)]) noOptions, Render 0]
            (snd (update serializeExample 0 (PartialValues [(''count'', Some 5)]) noOptions exampleWorld))))))
     = [(''q'', ''x''), (''count'', ''5'')]"
proof -
  let ?u1 = "update serializeExample 0 (PartialValues [(''count'', Some 5)]) noOptions exampleWorld"
  let ?acts = "[Update 1 (PartialValues [(''count'', Some 0)]) noOptions, Render 0]"
  let ?u2 = "update serializeExample 1 (PartialValues [(''count'', Some 5)]) noOptions
               (run serializeExample ?acts (snd ?u1))"
  have h1: "trace exampleWorld = []" by (simp add: exampleWorld_def)
  have h2: "flushPromiseCache (updateQueue exampleWorld) = None" by (simp add: exampleWorld_def emptyQueue_def)
  have h3: "exampleWorld = run serializeExample [] exampleWorld" by (simp add: run_def)
  have h4: "Flush \<notin> set ?acts" by simp
  have h5: "?u1 = (fst ?u1, snd ?u1)" by simp
  have h6: "?u2 = (fst ?u2, snd ?u2)" by simp
  have p0: "fst ?u1 = 0" by (simp add: update_result(1) exampleWorld_def emptyQueue_def)
  note t = promise_shared_and_resolved_once [OF h1 h2 h3 h4 h5 h6, unfolded p0]
  from t have c1: "fst ?u2 = 0" by blast
  from t have c2: "resolutionsOf 0 (trace (flushToURL (snd ?u2))) = [location (flushToURL (snd ?u2))]" by blast
  have c3: "location (flushToURL (snd ?u2)) = [(''q'', ''x''), (''count'', ''5'')]"
    by code_simp
  from h1 h2 h4 p0 c1 c2 c3 show ?thesis by (intro conjI)
qed

lemma updateLoop_emits:
  assumes i: "i < length (hooks w)"
    and parser: "map_of (keyMap (hooks w ! i)) k = Some parser"
    and es: "es = pre @ (k, v) # post"
  shows "\<exists>evs evs'. trace (fold (updateEntry String i callOptions) es w)
           = trace w @ evs @
             [Enqueued k (map_option (orDefault (serialize parser) String)
                (substituteDefault callOptions parser (group (hooks w ! i)) v)),
              Emitted k \<lparr>state = substituteDefault callOptions parser (group (hooks w ! i)) v,
                         query = map_option (orDefault (serialize parser) String)
                           (substituteDefault callOptions parser (group (hooks w ! i)) v)\<rparr>] @ evs' \<and>
           (\<forall>e \<in> set evs. eventKey e \<noteq> None) \<and> (\<forall>e \<in> set evs'. eventKey e \<noteq> None)"
proof -
  define w1 where "w1 = fold (updateEntry String i callOptions) pre w"
  define w2 where "w2 = updateEntry String i callOptions (k, v) w1"
  have run: "fold (updateEntry String i callOptions) es w = fold (updateEntry String i callOptions) post w2"
    by (simp add: es w1_def w2_def)
  have st1: "keyMap (hooks w1 ! i) = keyMap (hooks w ! i)" "group (hooks w1 ! i) = group (hooks w ! i)"
    unfolding w1_def using i by (simp_all add: updateLoop_static)
  from updateLoop_trace[of String i callOptions pre w 0]
  obtain evs where evs: "trace w1 = trace w @ evs" "\<forall>e \<in> set evs. eventKey e \<noteq> None"
    unfolding w1_def by fastforce
  from updateLoop_trace[of String i callOptions post w2 0]
  obtain evs' where evs': "trace (fold (updateEntry String i callOptions) post w2) = trace w2 @ evs'"
    "\<forall>e \<in> set evs'. eventKey e \<noteq> None"
    by fastforce
  have mid: "trace w2 = trace w1 @
     [Enqueued k (map_option (orDefault (serialize parser) String)
        (substituteDefault callOptions parser (group (hooks w ! i)) v)),
      Emitted k \<lparr>state = substituteDefault callOptions parser (group (hooks w ! i)) v,
                 query = map_option (orDefault (serialize parser) String)
                   (substituteDefault callOptions parser (group (hooks w ! i)) v)\<rparr>]"
    unfolding w2_def by (simp add: updateEntry_trace st1 parser)
  show ?thesis
    unfolding run evs'(1) mid evs(1) using evs(2) evs'(2)
    by (intro exI[of _ evs] exI[of _ evs']) simp
qed

text \<open>
  C7. In every run from a fresh page, when an update call returns its Promise handle,
  the emit of each key it updated has already been executed: the events of the call
  are its enqueues and emits, then the scheduling of the flush that yields the handle
  (the cached one, or one created only then);
  every subscribed binding that manages the key already holds the broadcast state
  and query; and the handle is still unresolved. It is the flush, later, that resolves it.
\<close>

theorem broadcast_before_resolution:
  assumes "trace w0 = []" and "flushPromiseCache (updateQueue w0) = None"
    and "w = run String before w0"
    and "i < length (hooks w)" and "x < length (hooks w)" and "subscribed (hooks w ! x)"
    and "map_of (keyMap (hooks w ! i)) k = Some parser"
    and "map_of (keyMap (hooks w ! x)) k = Some parser'"
    and "distinct (map fst (newStateOf (hooks w ! i) su))"
    and "(k, v) \<in> set (newStateOf (hooks w ! i) su)"
    and "update String i su callOptions w = (p, w')"
  shows "(\<exists>evs evs'. trace w' = trace w @ evs @
            Emitted k \<lparr>state = substituteDefault callOptions parser (group (hooks w ! i)) v,
                       query = map_option (orDefault (serialize parser) String)
                         (substituteDefault callOptions parser (group (hooks w ! i)) v)\<rparr>
            # evs' @ [Scheduled p] \<and>
            list_all (\<lambda>e. eventKey e \<noteq> None) evs \<and> list_all (\<lambda>e. eventKey e \<noteq> None) evs') \<and>
         getProp (stateRef (hooks w' ! x)) k
           = nullish (substituteDefault callOptions parser (group (hooks w ! i)) v) (defaultValue parser') \<and>
         getProp (queryRef (hooks w' ! x)) k
           = map_option (orDefault (serialize parser) String)
               (substituteDefault callOptions parser (group (hooks w ! i)) v) \<and>
         p = (case flushPromiseCache (updateQueue w) of Some c \<Rightarrow> c | None \<Rightarrow> promises (updateQueue w)) \<and>
         resolutionsOf p (trace w') = [] \<and>
         resolutionsOf p (trace (flushToURL w')) = [location (flushToURL w')]"
proof -
  let ?v = "substituteDefault callOptions parser (group (hooks w ! i)) v"
  let ?s = "map_option (orDefault (serialize parser) String) ?v"
  have p: "p = fst (update String i su callOptions w)" and w': "w' = snd (update String i su callOptions w)"
    using assms(11) by simp_all
  from assms(9,10) obtain pre post where es: "newStateOf (hooks w ! i) su = pre @ (k, v) # post"
    and post: "k \<notin> fst ` set post"
    by (rule entry_split_distinct)
  from updateLoop_emits[OF assms(4,7) es, of String callOptions]
  obtain evs evs' where tr: "trace (fold (updateEntry String i callOptions) (newStateOf (hooks w ! i) su) w)
      = trace w @ evs @ [Enqueued k ?s, Emitted k \<lparr>state = ?v, query = ?s\<rparr>] @ evs'"
    and keyed: "\<forall>e \<in> set evs. eventKey e \<noteq> None" "\<forall>e \<in> set evs'. eventKey e \<noteq> None"
    by blast
  have order: "\<exists>evs evs'. trace w' = trace w @ evs @ Emitted k \<lparr>state = ?v, query = ?s\<rparr> # evs' @ [Scheduled p] \<and>
      list_all (\<lambda>e. eventKey e \<noteq> None) evs \<and> list_all (\<lambda>e. eventKey e \<noteq> None) evs'"
    unfolding w' p update_world tr using keyed
    by (intro exI[of _ "evs @ [Enqueued k ?s]"] exI[of _ evs']) (simp add: list_all_iff)
  from update_same_key(3)[OF assms(4,7) es post assms(5,6,8), of String callOptions]
  have seen: "getProp (stateRef (hooks w' ! x)) k = nullish ?v (defaultValue parser')"
    "getProp (queryRef (hooks w' ! x)) k = ?s"
    unfolding w' by (simp_all add: getProp_eq)
  have fresh: "promisesFresh w"
    unfolding assms(3) using assms(1,2) by (intro promisesFresh_run promisesFresh_initial)
  have un: "resolutionsOf p (trace w') = []"
    unfolding p w' using fresh by (rule promisesFresh_update(2))
  have cache: "flushPromiseCache (updateQueue w') = Some p"
    unfolding p w' by (rule update_result(2))
  have res: "resolutionsOf p (trace (flushToURL w')) = [location (flushToURL w')]"
    using cache un by (rule flush_resolves)
  have handle: "p = (case flushPromiseCache (updateQueue w) of Some c \<Rightarrow> c | None \<Rightarrow> promises (updateQueue w))"
    unfolding p by (rule update_result(1))
  from order seen handle un res show ?thesis by blast
qed

theorem broadcast_before_resolution_witness:
  "trace exampleWorld = [] \<and> flushPromiseCache (updateQueue exampleWorld) = None \<and>
   (0::nat) < length (hooks exampleWorld) \<and> (1::nat) < length (hooks exampleWorld) \<and>
   subscribed (hooks exampleWorld ! 1) \<and>
   map_of (keyMap (hooks exampleWorld ! 0)) ''count'' = Some countKey \<and>
   map_of (keyMap (hooks exampleWorld ! 1)) ''count'' = Some countKey \<and>
   (''count'', Some 5) \<in> set (newStateOf (hooks exampleWorld ! 0) (PartialValues [(''count'', Some 5)])) \<and>
   getProp (stateRef (hooks exampleWorld ! 1)) ''count'' = Some 0 \<and>
   getProp (stateRef (hooks (snd (update serializeExample 0 (PartialValues [(''count'', Some 5)]) noOptions
      exampleWorld)) ! 1)) ''count'' = Some 5 \<and>
   getProp (queryRef (hooks (snd (update serializeExample 0 (PartialValues [(''count'', Some 5)]) noOptions
      exampleWorld)) ! 1)) ''count'' = Some ''5'' \<and>
   resolutionsOf (fst (update serializeExample 0 (PartialValues [(''count'', Some 5)]) noOptions exampleWorld))
     (trace (snd (update serializeExample 0 (PartialValues [(''count'', Some 5)]) noOptions exampleWorld))) = [] \<and>
   trace (snd (update serializeExample 0 (PartialValues [(''count'', Some 5)]) noOptions exampleWorld))
     = [Enqueued ''count'' (Some ''5''), Emitted ''count'' \<lparr>state = Some 5, query = Some ''5''\<rparr>, Scheduled 0]"
proof -
  let ?u = "update serializeExample 0 (PartialValues [(''count'', Some 5)]) noOptions exampleWorld"
  have h1: "trace exampleWorld = []" by (simp add: exampleWorld_def)
  have h2: "flushPromiseCache (updateQueue exampleWorld) = None" by (simp add: exampleWorld_def emptyQueue_def)
  have h3: "exampleWorld = run serializeExample [] exampleWorld" by (simp add: run_def)
  have h4: "(0::nat) < length (hooks exampleWorld)" and h5: "(1::nat) < length (hooks exampleWorld)"
    by (simp_all add: exampleWorld_def)
  have h6: "subscribed (hooks exampleWorld ! 1)" by (simp add: exampleWorld_def)
  have h7: "map_of (keyMap (hooks exampleWorld ! 0)) ''count'' = Some countKey"
    and h8: "map_of (keyMap (hooks exampleWorld ! 1)) ''count'' = Some countKey"
    by (simp_all add: exampleWorld_def)
  have h9: "distinct (map fst (newStateOf (hooks exampleWorld ! 0) (PartialValues [(''count'', Some (5::int))])))"
    by (simp add: newStateOf_def)
  have h10: "(''count'', Some 5) \<in> set (newStateOf (hooks exampleWorld ! 0) (PartialValues [(''count'', Some 5)]))"
    by (simp add: newStateOf_def)
  have h11: "?u = (fst ?u, snd ?u)" by simp
  have b: "getProp (stateRef (hooks exampleWorld ! 1)) ''count'' = Some 0"
    by (simp add: exampleWorld_def getProp_def)
  have v: "substituteDefault noOptions countKey (group (hooks exampleWorld ! 0)) (Some 5) = Some 5"
    by (simp add: substituteDefault_def equalsDefault_def countKey_def)
  have s: "map_option (orDefault (serialize countKey) serializeExample) (Some 5) = Some ''5''"
    by (simp add: countKey_def orDefault_def serializeExample_def)
  have n: "nullish (Some 5) (defaultValue countKey) = Some 5" by (simp add: nullish_def)
  note t = broadcast_before_resolution [OF h1 h2 h3 h4 h5 h6 h7 h8 h9 h10 h11, unfolded v s n]
  from t have c1: "getProp (stateRef (hooks (snd ?u) ! 1)) ''count'' = Some 5" by blast
  from t have c2: "getProp (queryRef (hooks (snd ?u) ! 1)) ''count'' = Some ''5''" by blast
  from t have c3: "resolutionsOf (fst ?u) (trace (snd ?u)) = []" by blast
  have c4: "trace (snd ?u)
     = [Enqueued ''count'' (Some ''5''), Emitted ''count'' \<lparr>state = Some 5, query = Some ''5''\<rparr>, Scheduled 0]"
    by code_simp
  from h1 h2 h4 h5 h6 h7 h8 h10 b c1 c2 c3 c4 show ?thesis by (intro conjI)
qed

section \<open>Rendering after a flush\<close>

lemma entries_of_searchParams_set:
  "filter (\<lambda>e. fst e = k) (searchParams_set k' v es)
     = (if k = k' then [(k', v)] else filter (\<lambda>e. fst e = k) es)"
proof (induction es)
  case Nil
  then show ?case by simp
next
  case (Cons e es)
  have "filter (\<lambda>e. fst e = k') (filter (\<lambda>e'. fst e' \<noteq> k') es) = []"
    by (simp add: filter_empty_conv)
  moreover have "filter (\<lambda>e. fst e = k) (filter (\<lambda>e'. fst e' \<noteq> k') es) = filter (\<lambda>e. fst e = k) es"
    if "k \<noteq> k'"
    using that by (induction es) auto
  ultimately show ?case using Cons by auto
qed

lemma entries_of_searchParams_delete:
  "filter (\<lambda>e. fst e = k) (searchParams_delete k' es)
     = (if k = k' then [] else filter (\<lambda>e. fst e = k) es)"
  unfolding searchParams_delete_def by (induction es) auto

lemma entries_of_applyPending:
  "distinct (map fst items) \<Longrightarrow>
   filter (\<lambda>e. fst e = k) (applyPending items search) =
     (case map_of items k of
        None \<Rightarrow> filter (\<lambda>e. fst e = k) search
      | Some pu \<Rightarrow> (case serialized pu of None \<Rightarrow> [] | Some v \<Rightarrow> [(k, v)]))"
proof (induction items arbitrary: search)
  case Nil
  then show ?case by (simp add: applyPending_def)
next
  case (Cons e items)
  let ?s = "(case serialized (snd e) of None \<Rightarrow> searchParams_delete (fst e)
             | Some v \<Rightarrow> searchParams_set (fst e) v) search"
  have unfold: "applyPending (e # items) search = applyPending items ?s"
    by (simp add: applyPending_def)
  from Cons.prems have d: "distinct (map fst items)" and n: "fst e \<notin> fst ` set items" by auto
  note IH = Cons.IH[OF d, of ?s]
  show ?case
  proof (cases "k = fst e")
    case True
    with n have "map_of items k = None" by (simp add: map_of_eq_None_iff)
    with True show ?thesis unfolding unfold IH
      by (cases e) (auto simp: entries_of_searchParams_set entries_of_searchParams_delete split: option.splits)
  next
    case False
    then show ?thesis unfolding unfold IH
      by (cases e) (auto simp: entries_of_searchParams_set entries_of_searchParams_delete split: option.splits)
  qed
qed

lemma map_of_filter_same:
  "map_of (filter (\<lambda>e. fst e = k) es) k = map_of es k"
  by (induction es) auto

lemma get_of_entries:
  "filter (\<lambda>e. fst e = k) search = (case s of None \<Rightarrow> [] | Some v \<Rightarrow> [(k, v)]) \<Longrightarrow> get search k = s"
  unfolding get_def using map_of_filter_same[of k search] by (cases s) simp_all

lemma fold_update_lookup:
  "map_of (fold (\<lambda>(k, v). AList.update k v) es acc) k
     = (case map_of (rev es) k of None \<Rightarrow> map_of acc k | Some v \<Rightarrow> Some v)"
proof (induction es arbitrary: acc)
  case Nil
  then show ?case by simp
next
  case (Cons e es)
  obtain k' v' where e: "e = (k', v')" by (cases e)
  show ?case
    unfolding e
    by (simp add: Cons.IH update_conv' map_add_def split: option.splits)
qed

lemma fromEntries_lookup:
  "map_of (fromEntries es) k = map_of (rev es) k"
  by (simp add: fromEntries_def fold_update_lookup split: option.splits)

lemma fromEntries_of_entries:
  assumes "filter (\<lambda>e. fst e = k) search = (case s of None \<Rightarrow> [] | Some v \<Rightarrow> [(k, v)])"
  shows "map_of (fromEntries (map (\<lambda>e. (fst e, Some (snd e))) search)) k = map_option Some s"
proof -
  let ?es = "map (\<lambda>e. (fst e, Some (snd e))) search"
  have "filter (\<lambda>e. fst e = k) (rev ?es) = rev (map (\<lambda>e. (fst e, Some (snd e))) (filter (\<lambda>e. fst e = k) search))"
    by (simp add: rev_map filter_map comp_def rev_filter)
  also have "\<dots> = (case s of None \<Rightarrow> [] | Some v \<Rightarrow> [(k, Some v)])"
    unfolding assms by (cases s) simp_all
  finally have "map_of (filter (\<lambda>e. fst e = k) (rev ?es)) k = map_option Some s"
    by (cases s) simp_all
  then show ?thesis
    by (simp add: fromEntries_lookup map_of_filter_same)
qed


lemma parseKey_cache_at:
  "map_option (\<lambda>cq. map_of cq k) (cachedQuery (parseKey sp cso (k, kv) acc)) =
     (case cacheHit (cachedQuery acc) cso k (get sp k) of
        Some c \<Rightarrow> map_option (\<lambda>cq. map_of cq k) (cachedQuery acc)
      | None \<Rightarrow> map_option (\<lambda>cq. Some (get sp k)) (cachedQuery acc))"
  by (auto simp: parseKey_def Let_def update_conv' option.map_comp comp_def split: option.splits)

lemma parseMap_cache_at_key:
  assumes "distinct (map fst km)" "(k, kv) \<in> set km"
  shows "map_option (\<lambda>cq. map_of cq k) (cachedQuery (parseMap km sp cqo cso)) =
     (case cacheHit cqo cso k (get sp k) of
        Some c \<Rightarrow> map_option (\<lambda>cq. map_of cq k) cqo
      | None \<Rightarrow> map_option (\<lambda>cq. Some (get sp k)) cqo)"
proof -
  from assms obtain pre post where
    km: "km = pre @ (k, kv) # post" and pre: "k \<notin> fst ` set pre" and post: "k \<notin> fst ` set post"
    by (rule split_distinct_keys)
  define acc1 where "acc1 = fold (parseKey sp cso) pre
    \<lparr>obj = [], cachedQuery = cqo, parseCalls = [], warnings = []\<rparr>"
  have c1: "map_option (\<lambda>cq. map_of cq k) (cachedQuery acc1) = map_option (\<lambda>cq. map_of cq k) cqo"
    unfolding acc1_def by (simp add: fold_parseKey_other(2)[OF pre])
  then have n1: "map_option (\<lambda>cq. Some (get sp k)) (cachedQuery acc1) = map_option (\<lambda>cq. Some (get sp k)) cqo"
    by (cases "cachedQuery acc1"; cases cqo) simp_all
  have hit: "cacheHit (cachedQuery acc1) cso k (get sp k) = cacheHit cqo cso k (get sp k)"
    using c1 by (rule cacheHit_cong)
  have run: "parseMap km sp cqo cso = fold (parseKey sp cso) post (parseKey sp cso (k, kv) acc1)"
    by (simp add: parseMap_def km acc1_def)
  show ?thesis
    by (simp only: run fold_parseKey_other(2)[OF post] parseKey_cache_at hit c1 n1)
qed

lemma syncEffect_static [simp]:
  "keyMap (syncEffect loc b) = keyMap b" "stateRef (syncEffect loc b) = stateRef b"
  "group (syncEffect loc b) = group b" "subscribed (syncEffect loc b) = subscribed b"
  "keyMap (initQueryRef loc b) = keyMap b" "stateRef (initQueryRef loc b) = stateRef b"
  "group (initQueryRef loc b) = group b" "subscribed (initQueryRef loc b) = subscribed b"
  "internalState (initQueryRef loc b) = internalState b"
  by (simp_all add: syncEffect_def initQueryRef_def Let_def)

lemma syncEffect_at_key:
  assumes "distinct (map fst (keyMap b))" "map_of (keyMap b) k = Some px"
  shows "getProp (internalState (syncEffect loc b)) k =
     (if map_of (queryRef b) k = Some (get loc k)
      then nullish (getProp (stateRef b) k) (defaultValue px)
      else nullish (fst (parseQuery (parse px) (get loc k) k)) (defaultValue px))"
    and "getProp (queryRef (syncEffect loc b)) k =
     (if map_of (queryRef b) k = Some (get loc k) then getProp (queryRef b) k else get loc k)"
proof -
  from assms(2) have mem: "(k, px) \<in> set (keyMap b)" by (rule map_of_SomeD)
  let ?R = "parseMap (keyMap b) loc (Some (queryRef b)) (Some (stateRef b))"
  have hit: "cacheHit (Some (queryRef b)) (Some (stateRef b)) k (get loc k)
      = (if map_of (queryRef b) k = Some (get loc k) then Some (getProp (stateRef b) k) else None)"
    by (simp add: cacheHit_def)
  show "getProp (internalState (syncEffect loc b)) k =
     (if map_of (queryRef b) k = Some (get loc k)
      then nullish (getProp (stateRef b) k) (defaultValue px)
      else nullish (fst (parseQuery (parse px) (get loc k) k)) (defaultValue px))"
    using parseMap_at_key(1)[OF assms(1) mem, of loc "Some (queryRef b)" "Some (stateRef b)"]
    by (simp add: syncEffect_def Let_def hit getProp_eq)
  from parseMap_cache_at_key[OF assms(1) mem, of loc "Some (queryRef b)" "Some (stateRef b)"]
  obtain cq where cq: "cachedQuery ?R = Some cq"
    "map_of cq k = (if map_of (queryRef b) k = Some (get loc k) then map_of (queryRef b) k else Some (get loc k))"
    by (cases "cachedQuery ?R") (simp_all add: hit split: if_splits)
  show "getProp (queryRef (syncEffect loc b)) k =
     (if map_of (queryRef b) k = Some (get loc k) then getProp (queryRef b) k else get loc k)"
    by (simp add: syncEffect_def Let_def cq getProp_def split: option.splits)
qed


lemma nullish_idem [simp]: "nullish (nullish a d) d = nullish a d"
  by (simp add: nullish_def split: option.splits)

lemma rerender_converges:
  assumes km: "distinct (map fst (keyMap b))" "map_of (keyMap b) k = Some px"
    and st: "getProp (stateRef b) k = nullish v' (defaultValue px)"
    and url: "filter (\<lambda>e. fst e = k) loc = (case s of None \<Rightarrow> [] | Some str \<Rightarrow> [(k, str)])"
    and vs: "s = map_option ser v'"
    and either: "map_of (queryRef b) k = Some s \<or> (\<forall>y. v' = Some y \<longrightarrow> parse px (ser y) = Returns (Some y))"
  shows "getProp (internalState (syncEffect loc (initQueryRef loc b))) k = nullish v' (defaultValue px)"
    and "getProp (queryRef (syncEffect loc (initQueryRef loc b))) k = s"
proof -
  let ?b = "initQueryRef loc b"
  have g: "get loc k = s" using url by (rule get_of_entries)
  have km1: "distinct (map fst (keyMap ?b))" "map_of (keyMap ?b) k = Some px"
    using km by simp_all
  note at = syncEffect_at_key[OF km1, of loc, unfolded g]
  have current: "map_of (queryRef ?b) k = Some s" if "map_of (queryRef b) k = Some s" "s \<noteq> None"
  proof (cases "length (queryRef b) \<noteq> length (keyMap b)")
    case True
    then have "map_of (queryRef ?b) k = map_option Some s"
      by (simp add: initQueryRef_def fromEntries_of_entries[OF url])
    with that(2) show ?thesis by (cases s) simp_all
  next
    case False
    then show ?thesis using that(1) by (simp add: initQueryRef_def)
  qed
  show "getProp (internalState (syncEffect loc ?b)) k = nullish v' (defaultValue px)"
  proof (cases "map_of (queryRef ?b) k = Some s")
    case True
    then show ?thesis by (simp add: at(1) st)
  next
    case False
    show ?thesis
    proof (cases v')
      case None
      then show ?thesis using False by (simp add: at(1) vs parseQuery_def)
    next
      case (Some y)
      then have "s \<noteq> None" by (simp add: vs)
      with either False current Some have "parse px (ser y) = Returns (Some y)" by blast
      then show ?thesis using False Some
        by (simp add: at(1) vs parseQuery_def safeParse_def nullish_def)
    qed
  qed
  show "getProp (queryRef (syncEffect loc ?b)) k = s"
    by (simp add: at(2) getProp_eq)
qed


lemma renderAndSync_nth:
  "x < length (hooks w) \<Longrightarrow>
   hooks (renderAndSync y w) ! x =
     (if x = y then syncEffect (location w) (initQueryRef (location w) (hooks w ! x)) else hooks w ! x)"
  by (simp add: renderAndSync_def nth_list_update)

lemma render_nth:
  "x < length (hooks w) \<Longrightarrow>
   hooks (render y w) ! x = (if x = y then initQueryRef (location w) (hooks w ! x) else hooks w ! x)"
  by (simp add: render_def nth_list_update)

lemma renders_frame:
  "location (fold render rs w) = location w"
  "updateQueue (fold render rs w) = updateQueue w"
  "length (hooks (fold render rs w)) = length (hooks w)"
  by (induction rs arbitrary: w; simp)+

lemma renders_static:
  assumes "x < length (hooks w)"
  shows "keyMap (hooks (fold render rs w) ! x) = keyMap (hooks w ! x)"
    and "stateRef (hooks (fold render rs w) ! x) = stateRef (hooks w ! x)"
    and "internalState (hooks (fold render rs w) ! x) = internalState (hooks w ! x)"
  using assms by (induction rs arbitrary: w; simp add: render_nth)+

lemma rerender_world:
  assumes x: "x < length (hooks w)"
    and km: "distinct (map fst (keyMap (hooks w ! x)))" "map_of (keyMap (hooks w ! x)) k = Some px"
    and st: "getProp (stateRef (hooks w ! x)) k = nullish v' (defaultValue px)"
    and url: "filter (\<lambda>e. fst e = k) (location w) = (case s of None \<Rightarrow> [] | Some str \<Rightarrow> [(k, str)])"
    and vs: "s = map_option ser v'"
    and either: "map_of (queryRef (hooks w ! x)) k = Some s \<or>
                 (\<forall>y. v' = Some y \<longrightarrow> parse px (ser y) = Returns (Some y))"
  shows "getProp (internalState (hooks (renderAndSync x w) ! x)) k = nullish v' (defaultValue px)"
    and "getProp (queryRef (hooks (renderAndSync x w) ! x)) k = s"
  using rerender_converges[OF km st url vs either] by (simp_all add: renderAndSync_nth[OF x])

lemma flush_entries_after_update:
  assumes "flushPromiseCache (updateQueue wa) = Some p"
    and "distinct (map fst (pending (updateQueue wa)))"
    and "map_of (pending (updateQueue wa)) k = Some pu" and "serialized pu = s"
  shows "filter (\<lambda>e. fst e = k) (location (flushToURL wa)) = (case s of None \<Rightarrow> [] | Some str \<Rightarrow> [(k, str)])"
  by (simp add: flushToURL_armed(1)[OF assms(1)] entries_of_applyPending[OF assms(2)] assms(3,4))

lemma converge_after_flush:
  assumes i: "i < length (hooks wa)" and j: "j < length (hooks wa)" and ij: "i \<noteq> j"
    and kmi: "distinct (map fst (keyMap (hooks wa ! i)))" "map_of (keyMap (hooks wa ! i)) k = Some parser"
    and kmj: "distinct (map fst (keyMap (hooks wa ! j)))" "map_of (keyMap (hooks wa ! j)) k = Some parser'"
    and sti: "getProp (stateRef (hooks wa ! i)) k = nullish v' (defaultValue parser)"
    and stj: "getProp (stateRef (hooks wa ! j)) k = nullish v' (defaultValue parser')"
    and cache: "flushPromiseCache (updateQueue wa) = Some p"
    and d: "distinct (map fst (pending (updateQueue wa)))"
    and pu: "map_of (pending (updateQueue wa)) k = Some pu" "serialized pu = s"
    and vs: "s = map_option ser v'"
    and ei: "map_of (queryRef (hooks wa ! i)) k = Some s \<or>
             (\<forall>y. v' = Some y \<longrightarrow> parse parser (ser y) = Returns (Some y))"
    and ej: "map_of (queryRef (hooks wa ! j)) k = Some s \<or>
             (\<forall>y. v' = Some y \<longrightarrow> parse parser' (ser y) = Returns (Some y))"
  shows "getProp (internalState (hooks (renderAndSync j (renderAndSync i (flushToURL wa))) ! i)) k
           = nullish v' (defaultValue parser) \<and>
         getProp (internalState (hooks (renderAndSync j (renderAndSync i (flushToURL wa))) ! j)) k
           = nullish v' (defaultValue parser') \<and>
         getProp (queryRef (hooks (renderAndSync j (renderAndSync i (flushToURL wa))) ! i)) k = s \<and>
         getProp (queryRef (hooks (renderAndSync j (renderAndSync i (flushToURL wa))) ! j)) k = s"
proof -
  let ?wf = "flushToURL wa"
  let ?wi = "renderAndSync i ?wf"
  have hf: "hooks ?wf = hooks wa" by (rule flushToURL_armed(6)[OF cache])
  have url: "filter (\<lambda>e. fst e = k) (location ?wf) = (case s of None \<Rightarrow> [] | Some str \<Rightarrow> [(k, str)])"
    using cache d pu by (rule flush_entries_after_update)
  have i': "i < length (hooks ?wf)" and j': "j < length (hooks ?wf)" using i j hf by simp_all
  note ri = rerender_world[OF i' kmi[folded hf] sti[folded hf] url vs ei[folded hf]]
  have j'': "j < length (hooks ?wi)" and i'': "i < length (hooks ?wi)" using i' j' by simp_all
  have same_j: "hooks ?wi ! j = hooks wa ! j"
    using ij j' by (simp add: renderAndSync_nth hf)
  have url': "filter (\<lambda>e. fst e = k) (location ?wi) = (case s of None \<Rightarrow> [] | Some str \<Rightarrow> [(k, str)])"
    using url by simp
  note rj = rerender_world[OF j'' kmj[folded same_j] stj[folded same_j] url' vs ej[folded same_j]]
  have keep_i: "hooks (renderAndSync j ?wi) ! i = hooks ?wi ! i"
    using ij i'' by (simp add: renderAndSync_nth)
  show ?thesis
    using ri rj by (simp add: keep_i)
qed


text \<open>
  C6. The state a binding renders does not always reflect its own queued write or the
  latest broadcast it received. On a page with an empty URL, \<open>page\<close> is set to \<open>0\<close> and
  flushed, then set to \<open>5\<close> before the binding has rendered the flushed URL (as a caller
  does that awaits the Promise of the first call and then updates again); the render
  that follows sees the URL \<open>page=0\<close>, its effect (lines 98-105) finds the cached query
  \<open>5\<close> different, parses \<open>0\<close> and makes it the state to render, while \<open>stateRef\<close>, the
  last broadcast and the queue all hold \<open>5\<close>: the output of a flush that happened before
  the broadcast is rendered. The next flush and render bring \<open>5\<close> back.
\<close>

theorem stale_render_after_flush:
  "getProp (internalState (hooks (run serializeExample
      [Update 0 (PartialValues [(''page'', Some 0)]) noOptions, Flush,
       Update 0 (PartialValues [(''page'', Some 5)]) noOptions, RenderAndSync 0] pageWorld) ! 0)) ''page''
     = Some 0 \<and>
   getProp (stateRef (hooks (run serializeExample
      [Update 0 (PartialValues [(''page'', Some 0)]) noOptions, Flush,
       Update 0 (PartialValues [(''page'', Some 5)]) noOptions, RenderAndSync 0] pageWorld) ! 0)) ''page''
     = Some 5 \<and>
   queuedValue (updateQueue (run serializeExample
      [Update 0 (PartialValues [(''page'', Some 0)]) noOptions, Flush,
       Update 0 (PartialValues [(''page'', Some 5)]) noOptions, RenderAndSync 0] pageWorld)) ''page''
     = Some (Some ''5'') \<and>
   last (filter isEmitted (trace (run serializeExample
      [Update 0 (PartialValues [(''page'', Some 0)]) noOptions, Flush,
       Update 0 (PartialValues [(''page'', Some 5)]) noOptions, RenderAndSync 0] pageWorld)))
     = Emitted ''page'' \<lparr>state = Some 5, query = Some ''5''\<rparr> \<and>
   location (run serializeExample
      [Update 0 (PartialValues [(''page'', Some 0)]) noOptions, Flush,
       Update 0 (PartialValues [(''page'', Some 5)]) noOptions, RenderAndSync 0] pageWorld)
     = [(''page'', ''0'')] \<and>
   getProp (internalState (hooks (run serializeExample
      [Update 0 (PartialValues [(''page'', Some 0)]) noOptions, Flush,
       Update 0 (PartialValues [(''page'', Some 5)]) noOptions, RenderAndSync 0,
       Flush, RenderAndSync 0] pageWorld) ! 0)) ''page''
     = Some 5"
  by code_simp

text \<open>
  What holds of two bindings that manage one key. The handler a subscribed binding
  registers for a key replaces, synchronously, the state and the cached serialized
  query of that key with the broadcast, and makes the result the state to render. For
  two distinct subscribed bindings that manage a key,
  an update of the key issued through the first is therefore held by both (state, cached
  query, state to render) when the call returns, while the URL is unchanged and the
  flush still pending. The flush commits the serialized value; after it, a render of both
  bindings followed by the effect leaves each with the same value of the key in its
  state to render (the broadcast value, or the binding's default when the value is
  null) and with the committed serialized value as cached query. With renders of any
  bindings between the call and the flush the same holds, provided the parsers of the two
  bindings read back the value that was serialized.
\<close>

lemma two_bindings_converge:
  assumes "i < length (hooks w)" and "j < length (hooks w)" and "i \<noteq> j"
    and "subscribed (hooks w ! i)" and "subscribed (hooks w ! j)"
    and "map_of (keyMap (hooks w ! i)) k = Some parser"
    and "map_of (keyMap (hooks w ! j)) k = Some parser'"
    and "distinct (map fst (keyMap (hooks w ! i)))" and "distinct (map fst (keyMap (hooks w ! j)))"
    and "distinct (map fst (newStateOf (hooks w ! i) su))"
    and "(k, v) \<in> set (newStateOf (hooks w ! i) su)"
    and "distinct (map fst (pending (updateQueue w)))"
    and "v' = substituteDefault callOptions parser (group (hooks w ! i)) v"
    and "s = map_option (orDefault (serialize parser) String) v'"
    and "w1 = snd (update String i su callOptions w)"
  shows "(\<forall>payload b px. subscribed b \<longrightarrow> map_of (keyMap b) k = Some px \<longrightarrow>
            getProp (stateRef (deliver k payload b)) k = nullish (state payload) (defaultValue px) \<and>
            getProp (queryRef (deliver k payload b)) k = query payload \<and>
            internalState (deliver k payload b) = stateRef (deliver k payload b)) \<and>
         location w1 = location w \<and> flushPromiseCache (updateQueue w1) \<noteq> None \<and>
         getProp (stateRef (hooks w1 ! j)) k = nullish v' (defaultValue parser') \<and>
         getProp (queryRef (hooks w1 ! j)) k = s \<and>
         internalState (hooks w1 ! j) = stateRef (hooks w1 ! j) \<and>
         getProp (stateRef (hooks w1 ! i)) k = nullish v' (defaultValue parser) \<and>
         getProp (queryRef (hooks w1 ! i)) k = s \<and>
         internalState (hooks w1 ! i) = stateRef (hooks w1 ! i) \<and>
         get (location (flushToURL w1)) k = s \<and>
         getProp (internalState (hooks (renderAndSync j (renderAndSync i (flushToURL w1))) ! i)) k
           = nullish v' (defaultValue parser) \<and>
         getProp (internalState (hooks (renderAndSync j (renderAndSync i (flushToURL w1))) ! j)) k
           = nullish v' (defaultValue parser') \<and>
         getProp (queryRef (hooks (renderAndSync j (renderAndSync i (flushToURL w1))) ! i)) k = s \<and>
         getProp (queryRef (hooks (renderAndSync j (renderAndSync i (flushToURL w1))) ! j)) k = s \<and>
         ((\<forall>y. v' = Some y \<longrightarrow>
              parse parser (orDefault (serialize parser) String y) = Returns (Some y) \<and>
              parse parser' (orDefault (serialize parser) String y) = Returns (Some y)) \<longrightarrow>
          (\<forall>rs.
             getProp (internalState (hooks (renderAndSync j (renderAndSync i
                 (flushToURL (fold render rs w1)))) ! i)) k = nullish v' (defaultValue parser) \<and>
             getProp (internalState (hooks (renderAndSync j (renderAndSync i
                 (flushToURL (fold render rs w1)))) ! j)) k = nullish v' (defaultValue parser') \<and>
             getProp (queryRef (hooks (renderAndSync j (renderAndSync i
                 (flushToURL (fold render rs w1)))) ! i)) k = s \<and>
             getProp (queryRef (hooks (renderAndSync j (renderAndSync i
                 (flushToURL (fold render rs w1)))) ! j)) k = s))"
proof -
  from assms(10,11) obtain pre post where es: "newStateOf (hooks w ! i) su = pre @ (k, v) # post"
    and post: "k \<notin> fst ` set post"
    by (rule entry_split_distinct)
  note same = update_same_key[OF assms(1,6) es post, where String = String and callOptions = callOptions,
      folded assms(13), folded assms(14), folded assms(15)]
  from same(1) obtain pu where pu: "map_of (pending (updateQueue w1)) k = Some pu" "serialized pu = s"
    by blast
  note at_i = same(3)[OF assms(1,4,6)] and at_j = same(3)[OF assms(2,5,7)]
  have len: "length (hooks w1) = length (hooks w)" by (simp add: assms(15))
  have kmi: "keyMap (hooks w1 ! i) = keyMap (hooks w ! i)" and kmj: "keyMap (hooks w1 ! j) = keyMap (hooks w ! j)"
    unfolding assms(15) using assms(1,2) by (simp_all add: update_static)
  have d1: "distinct (map fst (pending (updateQueue w1)))"
    unfolding assms(15) using assms(12) by (rule update_distinct)
  obtain p where cache: "flushPromiseCache (updateQueue w1) = Some p"
    unfolding assms(15) by (simp add: update_result(2))
  have before: "location w1 = location w" "flushPromiseCache (updateQueue w1) \<noteq> None"
    "getProp (stateRef (hooks w1 ! j)) k = nullish v' (defaultValue parser')"
    "getProp (queryRef (hooks w1 ! j)) k = s"
    "internalState (hooks w1 ! j) = stateRef (hooks w1 ! j)"
    "getProp (stateRef (hooks w1 ! i)) k = nullish v' (defaultValue parser)"
    "getProp (queryRef (hooks w1 ! i)) k = s"
    "internalState (hooks w1 ! i) = stateRef (hooks w1 ! i)"
    using at_i at_j cache by (simp_all add: getProp_eq assms(15) update_world(3))
  have url: "get (location (flushToURL w1)) k = s"
    using flush_entries_after_update[OF cache d1 pu] by (rule get_of_entries)
  have direct: "getProp (internalState (hooks (renderAndSync j (renderAndSync i (flushToURL w1))) ! i)) k
           = nullish v' (defaultValue parser) \<and>
         getProp (internalState (hooks (renderAndSync j (renderAndSync i (flushToURL w1))) ! j)) k
           = nullish v' (defaultValue parser') \<and>
         getProp (queryRef (hooks (renderAndSync j (renderAndSync i (flushToURL w1))) ! i)) k = s \<and>
         getProp (queryRef (hooks (renderAndSync j (renderAndSync i (flushToURL w1))) ! j)) k = s"
  proof (rule converge_after_flush[where ser = "orDefault (serialize parser) String"])
    show "i < length (hooks w1)" "j < length (hooks w1)" using assms(1,2) len by simp_all
    show "i \<noteq> j" by (rule assms(3))
    show "distinct (map fst (keyMap (hooks w1 ! i)))" "map_of (keyMap (hooks w1 ! i)) k = Some parser"
      "distinct (map fst (keyMap (hooks w1 ! j)))" "map_of (keyMap (hooks w1 ! j)) k = Some parser'"
      using assms(6-9) by (simp_all add: kmi kmj)
    show "getProp (stateRef (hooks w1 ! i)) k = nullish v' (defaultValue parser)"
      "getProp (stateRef (hooks w1 ! j)) k = nullish v' (defaultValue parser')"
      by (rule before)+
    show "flushPromiseCache (updateQueue w1) = Some p" by (rule cache)
    show "distinct (map fst (pending (updateQueue w1)))" by (rule d1)
    show "map_of (pending (updateQueue w1)) k = Some pu" "serialized pu = s" by (rule pu)+
    show "s = map_option (orDefault (serialize parser) String) v'" by (rule assms(14))
    show "map_of (queryRef (hooks w1 ! i)) k = Some s \<or>
             (\<forall>y. v' = Some y \<longrightarrow> parse parser (orDefault (serialize parser) String y) = Returns (Some y))"
      using at_i by (simp add: assms(15))
    show "map_of (queryRef (hooks w1 ! j)) k = Some s \<or>
             (\<forall>y. v' = Some y \<longrightarrow> parse parser' (orDefault (serialize parser) String y) = Returns (Some y))"
      using at_j by (simp add: assms(15))
  qed
  have rendered: "getProp (internalState (hooks (renderAndSync j (renderAndSync i
                 (flushToURL (fold render rs w1)))) ! i)) k = nullish v' (defaultValue parser) \<and>
             getProp (internalState (hooks (renderAndSync j (renderAndSync i
                 (flushToURL (fold render rs w1)))) ! j)) k = nullish v' (defaultValue parser') \<and>
             getProp (queryRef (hooks (renderAndSync j (renderAndSync i
                 (flushToURL (fold render rs w1)))) ! i)) k = s \<and>
             getProp (queryRef (hooks (renderAndSync j (renderAndSync i
                 (flushToURL (fold render rs w1)))) ! j)) k = s"
    if rt: "\<forall>y. v' = Some y \<longrightarrow>
              parse parser (orDefault (serialize parser) String y) = Returns (Some y) \<and>
              parse parser' (orDefault (serialize parser) String y) = Returns (Some y)" for rs
  proof (rule converge_after_flush[where ser = "orDefault (serialize parser) String"])
    let ?wa = "fold render rs w1"
    have i1: "i < length (hooks w1)" and j1: "j < length (hooks w1)" using assms(1,2) len by simp_all
    show "i < length (hooks ?wa)" "j < length (hooks ?wa)" using i1 j1 by (simp_all add: renders_frame)
    show "i \<noteq> j" by (rule assms(3))
    show "distinct (map fst (keyMap (hooks ?wa ! i)))" "map_of (keyMap (hooks ?wa ! i)) k = Some parser"
      "distinct (map fst (keyMap (hooks ?wa ! j)))" "map_of (keyMap (hooks ?wa ! j)) k = Some parser'"
      using assms(6-9) by (simp_all add: renders_static[OF i1] renders_static[OF j1] kmi kmj)
    show "getProp (stateRef (hooks ?wa ! i)) k = nullish v' (defaultValue parser)"
      "getProp (stateRef (hooks ?wa ! j)) k = nullish v' (defaultValue parser')"
      using before by (simp_all add: renders_static[OF i1] renders_static[OF j1])
    show "flushPromiseCache (updateQueue ?wa) = Some p" using cache by (simp add: renders_frame)
    show "distinct (map fst (pending (updateQueue ?wa)))" using d1 by (simp add: renders_frame)
    show "map_of (pending (updateQueue ?wa)) k = Some pu" "serialized pu = s"
      using pu by (simp_all add: renders_frame)
    show "s = map_option (orDefault (serialize parser) String) v'" by (rule assms(14))
    show "map_of (queryRef (hooks ?wa ! i)) k = Some s \<or>
             (\<forall>y. v' = Some y \<longrightarrow> parse parser (orDefault (serialize parser) String y) = Returns (Some y))"
      using rt by blast
    show "map_of (queryRef (hooks ?wa ! j)) k = Some s \<or>
             (\<forall>y. v' = Some y \<longrightarrow> parse parser' (orDefault (serialize parser) String y) = Returns (Some y))"
      using rt by blast
  qed
  show ?thesis
  proof (intro conjI)
    show "\<forall>payload b px. subscribed b \<longrightarrow> map_of (keyMap b) k = Some px \<longrightarrow>
            getProp (stateRef (deliver k payload b)) k = nullish (state payload) (defaultValue px) \<and>
            getProp (queryRef (deliver k payload b)) k = query payload \<and>
            internalState (deliver k payload b) = stateRef (deliver k payload b)"
      by (simp add: deliver_same_key getProp_eq)
    show "(\<forall>y. v' = Some y \<longrightarrow>
              parse parser (orDefault (serialize parser) String y) = Returns (Some y) \<and>
              parse parser' (orDefault (serialize parser) String y) = Returns (Some y)) \<longrightarrow>
          (\<forall>rs.
             getProp (internalState (hooks (renderAndSync j (renderAndSync i
                 (flushToURL (fold render rs w1)))) ! i)) k = nullish v' (defaultValue parser) \<and>
             getProp (internalState (hooks (renderAndSync j (renderAndSync i
                 (flushToURL (fold render rs w1)))) ! j)) k = nullish v' (defaultValue parser') \<and>
             getProp (queryRef (hooks (renderAndSync j (renderAndSync i
                 (flushToURL (fold render rs w1)))) ! i)) k = s \<and>
             getProp (queryRef (hooks (renderAndSync j (renderAndSync i
                 (flushToURL (fold render rs w1)))) ! j)) k = s)"
      using rendered by blast
  qed (use before url direct in blast)+
qed


lemma two_bindings_converge_example:
  "(0::nat) < length (hooks exampleWorld) \<and> (1::nat) < length (hooks exampleWorld) \<and>
   subscribed (hooks exampleWorld ! 0) \<and> subscribed (hooks exampleWorld ! 1) \<and>
   map_of (keyMap (hooks exampleWorld ! 0)) ''count'' = Some countKey \<and>
   map_of (keyMap (hooks exampleWorld ! 1)) ''count'' = Some countKey \<and>
   distinct (map fst (keyMap (hooks exampleWorld ! 0))) \<and> distinct (map fst (keyMap (hooks exampleWorld ! 1))) \<and>
   (''count'', Some 5) \<in> set (newStateOf (hooks exampleWorld ! 0) (PartialValues [(''count'', Some 5)])) \<and>
   distinct (map fst (pending (updateQueue exampleWorld))) \<and>
   parse countKey (orDefault (serialize countKey) serializeExample 5) = Returns (Some 5) \<and>
   getProp (stateRef (hooks exampleWorld ! 1)) ''count'' = Some 0 \<and>
   get (location exampleWorld) ''count'' = None \<and>
   location (snd (update serializeExample 0 (PartialValues [(''count'', Some 5)]) noOptions exampleWorld))
     = location exampleWorld \<and>
   getProp (stateRef (hooks (snd (update serializeExample 0 (PartialValues [(''count'', Some 5)]) noOptions
      exampleWorld)) ! 1)) ''count'' = Some 5 \<and>
   get (location (flushToURL (snd (update serializeExample 0 (PartialValues [(''count'', Some 5)]) noOptions
      exampleWorld)))) ''count'' = Some ''5'' \<and>
   getProp (internalState (hooks (renderAndSync 1 (renderAndSync 0 (flushToURL
      (snd (update serializeExample 0 (PartialValues [(''count'', Some 5)]) noOptions exampleWorld))))) ! 0))
      ''count'' = Some 5 \<and>
   getProp (internalState (hooks (renderAndSync 1 (renderAndSync 0 (flushToURL
      (snd (update serializeExample 0 (PartialValues [(''count'', Some 5)]) noOptions exampleWorld))))) ! 1))
      ''count'' = Some 5 \<and>
   getProp (internalState (hooks (renderAndSync 1 (renderAndSync 0 (flushToURL (fold render [0, 1]
      (snd (update serializeExample 0 (PartialValues [(''count'', Some 5)]) noOptions exampleWorld)))))) ! 0))
      ''count'' = Some 5 \<and>
   getProp (internalState (hooks (renderAndSync 1 (renderAndSync 0 (flushToURL (fold render [0, 1]
      (snd (update serializeExample 0 (PartialValues [(''count'', Some 5)]) noOptions exampleWorld)))))) ! 1))
      ''count'' = Some 5"
proof -
  let ?w1 = "snd (update serializeExample 0 (PartialValues [(''count'', Some 5)]) noOptions exampleWorld)"
  have h1: "(0::nat) < length (hooks exampleWorld)" and h2: "(1::nat) < length (hooks exampleWorld)"
    by (simp_all add: exampleWorld_def)
  have h3: "(0::nat) \<noteq> 1" by simp
  have h4: "subscribed (hooks exampleWorld ! 0)" and h5: "subscribed (hooks exampleWorld ! 1)"
    by (simp_all add: exampleWorld_def)
  have h6: "map_of (keyMap (hooks exampleWorld ! 0)) ''count'' = Some countKey"
    and h7: "map_of (keyMap (hooks exampleWorld ! 1)) ''count'' = Some countKey"
    by (simp_all add: exampleWorld_def)
  have h8: "distinct (map fst (keyMap (hooks exampleWorld ! 0)))"
    and h9: "distinct (map fst (keyMap (hooks exampleWorld ! 1)))"
    by (simp_all add: exampleWorld_def)
  have h10: "distinct (map fst (newStateOf (hooks exampleWorld ! 0) (PartialValues [(''count'', Some (5::int))])))"
    by (simp add: newStateOf_def)
  have h11: "(''count'', Some 5) \<in> set (newStateOf (hooks exampleWorld ! 0) (PartialValues [(''count'', Some 5)]))"
    by (simp add: newStateOf_def)
  have h12: "distinct (map fst (pending (updateQueue exampleWorld)))"
    by (simp add: exampleWorld_def emptyQueue_def)
  have h13: "Some 5 = substituteDefault noOptions countKey (group (hooks exampleWorld ! 0)) (Some 5)"
    by (simp add: substituteDefault_def equalsDefault_def countKey_def)
  have h14: "Some ''5'' = map_option (orDefault (serialize countKey) serializeExample) (Some 5)"
    by (simp add: countKey_def orDefault_def serializeExample_def)
  have h15: "?w1 = ?w1" by simp
  have rt: "parse countKey (orDefault (serialize countKey) serializeExample 5) = Returns (Some 5)"
    by (simp add: countKey_def orDefault_def serializeExample_def parseExample_def)
  then have rt': "\<forall>y. Some (5::int) = Some y \<longrightarrow>
      parse countKey (orDefault (serialize countKey) serializeExample y) = Returns (Some y) \<and>
      parse countKey (orDefault (serialize countKey) serializeExample y) = Returns (Some y)"
    by simp
  have n: "nullish (Some 5) (defaultValue countKey) = Some 5" by (simp add: nullish_def)
  have b: "getProp (stateRef (hooks exampleWorld ! 1)) ''count'' = Some 0"
    "get (location exampleWorld) ''count'' = None"
    by (simp_all add: exampleWorld_def getProp_def get_def)
  note t = two_bindings_converge [OF h1 h2 h3 h4 h5 h6 h7 h8 h9 h10 h11 h12 h13 h14 h15, unfolded n]
  from t have c1: "location ?w1 = location exampleWorld" by blast
  from t have c2: "getProp (stateRef (hooks ?w1 ! 1)) ''count'' = Some 5" by blast
  from t have c3: "get (location (flushToURL ?w1)) ''count'' = Some ''5''" by blast
  from t have c4: "getProp (internalState (hooks (renderAndSync 1 (renderAndSync 0 (flushToURL ?w1))) ! 0))
      ''count'' = Some 5" by blast
  from t have c5: "getProp (internalState (hooks (renderAndSync 1 (renderAndSync 0 (flushToURL ?w1))) ! 1))
      ''count'' = Some 5" by blast
  from t rt' have c6: "getProp (internalState (hooks (renderAndSync 1 (renderAndSync 0
      (flushToURL (fold render [0, 1] ?w1)))) ! 0)) ''count'' = Some 5" by blast
  from t rt' have c7: "getProp (internalState (hooks (renderAndSync 1 (renderAndSync 0
      (flushToURL (fold render [0, 1] ?w1)))) ! 1)) ''count'' = Some 5" by blast
  from h1 h2 h4 h5 h6 h7 h8 h9 h11 h12 rt b c1 c2 c3 c4 c5 c6 c7 show ?thesis by (intro conjI)
qed

section \<open>The flush timer and the precedence of options\<close>

lemma enqueue_times [simp]:
  "flushTimer (snd (enqueueQueryStringUpdate k v ser opts q)) = flushTimer q"
  "lastFlushedAt (snd (enqueueQueryStringUpdate k v ser opts q)) = lastFlushedAt q"
  by (simp_all add: enqueueQueryStringUpdate_def Let_def)

lemma emit_times [simp]:
  "clock (emit k payload w) = clock w" "rateLimitFactor (emit k payload w) = rateLimitFactor w"
  by (simp_all add: emit_def)

lemma updateEntry_times [simp]:
  "clock (updateEntry String i callOptions e w) = clock w"
  "rateLimitFactor (updateEntry String i callOptions e w) = rateLimitFactor w"
  "flushTimer (updateQueue (updateEntry String i callOptions e w)) = flushTimer (updateQueue w)"
  "lastFlushedAt (updateQueue (updateEntry String i callOptions e w)) = lastFlushedAt (updateQueue w)"
  by (cases rule: updateEntry_cases[of w i e String callOptions]; simp)+

lemma updateLoop_times [simp]:
  "clock (fold (updateEntry String i callOptions) es w) = clock w"
  "rateLimitFactor (fold (updateEntry String i callOptions) es w) = rateLimitFactor w"
  "flushTimer (updateQueue (fold (updateEntry String i callOptions) es w)) = flushTimer (updateQueue w)"
  "lastFlushedAt (updateQueue (fold (updateEntry String i callOptions) es w)) = lastFlushedAt (updateQueue w)"
  by (induction es arbitrary: w; simp)+

lemma update_times:
  "clock (snd (update String i su callOptions w)) = clock w"
  "rateLimitFactor (snd (update String i su callOptions w)) = rateLimitFactor w"
  "lastFlushedAt (updateQueue (snd (update String i su callOptions w))) = lastFlushedAt (updateQueue w)"
  "flushTimer (updateQueue (snd (update String i su callOptions w)))
     = (case flushPromiseCache (updateQueue w) of
          Some p \<Rightarrow> flushTimer (updateQueue w)
        | None \<Rightarrow> Some (clock w + flushDelay (orDefault (rateLimitFactor w) 1) (clock w)
                     (updateQueue (fold (updateEntry String i callOptions) (newStateOf (hooks w ! i) su) w))))"
  by (simp_all add: update_def Let_def scheduleFlushToURL_result split: option.splits)

lemma flushToURL_times:
  assumes "flushPromiseCache (updateQueue w) = Some p" "flushTimer (updateQueue w) = Some expiry"
  shows "clock (flushToURL w) = max (clock w) expiry"
    and "lastFlushedAt (updateQueue (flushToURL w)) = max (clock w) expiry"
    and "flushTimer (updateQueue (flushToURL w)) = None"
  using assms by (simp_all add: flushToURL_def Let_def)

lemma single_entry_pending:
  assumes "pending (updateQueue w) = []" and "keyMapProperty (keyMap (hooks w ! i)) k = Some parser"
  shows "pending (updateQueue (fold (updateEntry String i callOptions) [(k, v)] w))
           = [(k, \<lparr>serialized = map_option (orDefault (serialize parser) String)
                                  (substituteDefault callOptions parser (group (hooks w ! i)) v),
                    navigation = resolveOptions callOptions parser (group (hooks w ! i))\<rparr>)]"
  using assms by (simp add: updateEntry_def Let_def enqueueQueryStringUpdate_def)


lemma mount_hook:
  "length (hooks (mount F km opts w0)) = Suc (length (hooks w0))"
  "keyMap (hooks (mount F km opts w0) ! length (hooks w0)) = km"
  "group (hooks (mount F km opts w0) ! length (hooks w0)) = groupOptions F opts"
  "subscribed (hooks (mount F km opts w0) ! length (hooks w0))"
  by (simp_all add: mount_def useQueryStates_def Let_def nth_append)

lemma flushToURL_hooks [simp]: "hooks (flushToURL w) = hooks w"
  by (simp add: flushToURL_def Let_def split: option.splits)


lemma step_static:
  assumes "x < length (hooks w)"
  shows "length (hooks (step String a w)) = length (hooks w)"
    and "keyMap (hooks (step String a w) ! x) = keyMap (hooks w ! x)"
    and "group (hooks (step String a w) ! x) = group (hooks w ! x)"
    and "subscribed (hooks (step String a w) ! x) = subscribed (hooks w ! x)"
proof -
  show "length (hooks (step String a w)) = length (hooks w)"
    by (cases a) simp_all
  show "keyMap (hooks (step String a w) ! x) = keyMap (hooks w ! x)"
    using assms by (cases a) (simp_all add: update_static(1) render_nth renderAndSync_nth)
  show "group (hooks (step String a w) ! x) = group (hooks w ! x)"
    using assms by (cases a) (simp_all add: update_static(2) render_nth renderAndSync_nth)
  show "subscribed (hooks (step String a w) ! x) = subscribed (hooks w ! x)"
    using assms by (cases a) (simp_all add: update_static(3) render_nth renderAndSync_nth)
qed

lemma run_static:
  assumes "x < length (hooks w)"
  shows "length (hooks (run String acts w)) = length (hooks w) \<and>
         keyMap (hooks (run String acts w) ! x) = keyMap (hooks w ! x) \<and>
         group (hooks (run String acts w) ! x) = group (hooks w ! x) \<and>
         subscribed (hooks (run String acts w) ! x) = subscribed (hooks w ! x)"
  using assms unfolding run_def
proof (induction acts arbitrary: w)
  case Nil
  then show ?case by simp
next
  case (Cons a acts)
  from step_static[OF Cons.prems, of String a]
  have s: "length (hooks (step String a w)) = length (hooks w)"
    "keyMap (hooks (step String a w) ! x) = keyMap (hooks w ! x)"
    "group (hooks (step String a w) ! x) = group (hooks w ! x)"
    "subscribed (hooks (step String a w) ! x) = subscribed (hooks w ! x)"
    by simp_all
  from s(1) Cons.prems have "x < length (hooks (step String a w))" by simp
  from Cons.IH[OF this] s show ?case by simp
qed

lemma mounted_hook_after_run:
  assumes "w = run String acts (mount F km opts w0)" and "i = length (hooks w0)"
  shows "i < length (hooks w)" and "keyMap (hooks w ! i) = km"
    and "group (hooks w ! i) = groupOptions F opts" and "subscribed (hooks w ! i)"
proof -
  have x: "i < length (hooks (mount F km opts w0))" by (simp add: assms(2) mount_hook(1))
  note r = run_static[OF x, of String acts]
  show "i < length (hooks w)" using r x by (simp add: assms(1))
  show "keyMap (hooks w ! i) = km" using r by (simp add: assms mount_hook(2))
  show "group (hooks w ! i) = groupOptions F opts" using r by (simp add: assms mount_hook(3))
  show "subscribed (hooks w ! i)" using r by (simp add: assms mount_hook(4))
qed



text \<open>
  C3. For a hook mounted with its group-level options, after any run: in an update call
  made through it, for every key of the new state that the hook manages, the options
  queued for that key are, field by field (history, shallow, scroll, throttleMs,
  startTransition), the call-level value when provided, otherwise the per-key value of
  the parser when provided, otherwise the group-level value given to the hook, otherwise
  the default of the hook (replace, shallow, no scroll, \<open>FLUSH_RATE_LIMIT_MS\<close>). (When
  no level provides a startTransition, none is passed for the key.) The throttle
  interval resolved that way is the one the flush waits for: when the call opens a
  window (no handle is cached, nothing is pending) and writes that one key, the timer is
  armed for, and the flush commits, \<open>interval * rateLimitFactor - timeSinceLastFlush\<close>
  milliseconds after the call (at once when the last flush is longer ago than that).
  Right after a flush, with group-level 50, per-key 200 and call-level 10, that is 10
  milliseconds after the call, and 200 without the call-level value.
\<close>

theorem options_precedence:
  assumes "w = run String acts (mount FLUSH_RATE_LIMIT_MS km opts w0)"
    and "i = length (hooks w0)"
    and "map_of km k = Some parser"
    and "k \<in> fst ` set (newStateOf (hooks w ! i) su)"
    and "w' = snd (update String i su callOptions w)"
    and "interval = (case throttleMs callOptions of Some t \<Rightarrow> t | None \<Rightarrow>
                      (case throttleMs parser of Some t \<Rightarrow> t | None \<Rightarrow>
                        (case throttleMs opts of Some t \<Rightarrow> t | None \<Rightarrow> FLUSH_RATE_LIMIT_MS)))"
  shows "map_option history (queuedOptions (updateQueue w') k)
           = Some (Some (case history callOptions of Some h \<Rightarrow> h | None \<Rightarrow>
                          (case history parser of Some h \<Rightarrow> h | None \<Rightarrow>
                            (case history opts of Some h \<Rightarrow> h | None \<Rightarrow> replace)))) \<and>
         map_option shallow (queuedOptions (updateQueue w') k)
           = Some (Some (case shallow callOptions of Some h \<Rightarrow> h | None \<Rightarrow>
                          (case shallow parser of Some h \<Rightarrow> h | None \<Rightarrow>
                            (case shallow opts of Some h \<Rightarrow> h | None \<Rightarrow> True)))) \<and>
         map_option scroll (queuedOptions (updateQueue w') k)
           = Some (Some (case scroll callOptions of Some h \<Rightarrow> h | None \<Rightarrow>
                          (case scroll parser of Some h \<Rightarrow> h | None \<Rightarrow>
                            (case scroll opts of Some h \<Rightarrow> h | None \<Rightarrow> False)))) \<and>
         map_option throttleMs (queuedOptions (updateQueue w') k) = Some (Some interval) \<and>
         (case (case startTransition callOptions of Some t \<Rightarrow> Some t | None \<Rightarrow>
                 (case startTransition parser of Some t \<Rightarrow> Some t | None \<Rightarrow> startTransition opts)) of
            Some t \<Rightarrow> map_option startTransition (queuedOptions (updateQueue w') k) = Some (Some t)
          | None \<Rightarrow> startTransition (resolveOptions callOptions parser (group (hooks w ! i))) = None) \<and>
         (flushPromiseCache (updateQueue w) = None \<and> pending (updateQueue w) = [] \<and>
          map fst (newStateOf (hooks w ! i) su) = [k] \<longrightarrow>
            flushTimer (updateQueue w')
              = Some (clock w + (interval * (case rateLimitFactor w of Some f \<Rightarrow> f | None \<Rightarrow> 1)
                                 - (clock w - lastFlushedAt (updateQueue w)))) \<and>
            clock (flushToURL w')
              = clock w + (interval * (case rateLimitFactor w of Some f \<Rightarrow> f | None \<Rightarrow> 1)
                           - (clock w - lastFlushedAt (updateQueue w))))"
proof -
  note hook = mounted_hook_after_run[OF assms(1,2)]
  have parser: "map_of (keyMap (hooks w ! i)) k = Some parser" using assms(3) hook(2) by simp
  let ?g = "group (hooks w ! i)"
  have thr: "throttleMs (resolveOptions callOptions parser ?g) = Some interval"
    by (simp add: resolveOptions_def hook(3) groupOptions_def nullish_def orDefault_def assms(6)
        split: option.splits)
  from assms(4) obtain pre v post where es: "newStateOf (hooks w ! i) su = pre @ (k, v) # post"
    and post: "k \<notin> fst ` set post"
    by (rule entry_split)
  from update_same_key(1)[OF hook(1) parser es post, where String = String and callOptions = callOptions]
  obtain old :: "_ PendingUpdate option" and pu where
    pu: "map_of (pending (updateQueue w')) k = Some pu"
    and nav: "navigation pu = (case old of
               None \<Rightarrow> resolveOptions callOptions parser ?g
             | Some pu' \<Rightarrow> mergeOptions (navigation pu') (resolveOptions callOptions parser ?g))"
    unfolding assms(5) by blast
  note m = merged_navigation[OF nav]
  have q: "queuedOptions (updateQueue w') k = Some (navigation pu)"
    by (simp add: queuedOptions_def pu)
  have opts: "map_option history (queuedOptions (updateQueue w') k)
           = Some (Some (case history callOptions of Some h \<Rightarrow> h | None \<Rightarrow>
                          (case history parser of Some h \<Rightarrow> h | None \<Rightarrow>
                            (case history opts of Some h \<Rightarrow> h | None \<Rightarrow> replace))))"
    "map_option shallow (queuedOptions (updateQueue w') k)
           = Some (Some (case shallow callOptions of Some h \<Rightarrow> h | None \<Rightarrow>
                          (case shallow parser of Some h \<Rightarrow> h | None \<Rightarrow>
                            (case shallow opts of Some h \<Rightarrow> h | None \<Rightarrow> True))))"
    "map_option scroll (queuedOptions (updateQueue w') k)
           = Some (Some (case scroll callOptions of Some h \<Rightarrow> h | None \<Rightarrow>
                          (case scroll parser of Some h \<Rightarrow> h | None \<Rightarrow>
                            (case scroll opts of Some h \<Rightarrow> h | None \<Rightarrow> False))))"
    "map_option throttleMs (queuedOptions (updateQueue w') k) = Some (Some interval)"
    unfolding q
    by (simp_all add: m thr, simp_all add: resolveOptions_def hook(3) groupOptions_def nullish_def orDefault_def
        split: option.splits)
  have st: "(case (case startTransition callOptions of Some t \<Rightarrow> Some t | None \<Rightarrow>
                 (case startTransition parser of Some t \<Rightarrow> Some t | None \<Rightarrow> startTransition opts)) of
            Some t \<Rightarrow> map_option startTransition (queuedOptions (updateQueue w') k) = Some (Some t)
          | None \<Rightarrow> startTransition (resolveOptions callOptions parser (group (hooks w ! i))) = None)"
    unfolding q
    by (simp add: m resolveOptions_def hook(3) groupOptions_def nullish_def split: option.splits)
  have timing: "flushTimer (updateQueue w')
              = Some (clock w + (interval * (case rateLimitFactor w of Some f \<Rightarrow> f | None \<Rightarrow> 1)
                                 - (clock w - lastFlushedAt (updateQueue w)))) \<and>
            clock (flushToURL w')
              = clock w + (interval * (case rateLimitFactor w of Some f \<Rightarrow> f | None \<Rightarrow> 1)
                           - (clock w - lastFlushedAt (updateQueue w)))"
    if fresh: "flushPromiseCache (updateQueue w) = None" and empty: "pending (updateQueue w) = []"
      and single: "map fst (newStateOf (hooks w ! i) su) = [k]"
  proof -
    from single obtain v' where one: "newStateOf (hooks w ! i) su = [(k, v')]"
      by (cases "newStateOf (hooks w ! i) su") auto
    let ?w1 = "fold (updateEntry String i callOptions) (newStateOf (hooks w ! i) su) w"
    have p1: "pending (updateQueue ?w1)
        = [(k, \<lparr>serialized = map_option (orDefault (serialize parser) String)
                                  (substituteDefault callOptions parser ?g v'),
                 navigation = resolveOptions callOptions parser ?g\<rparr>)]"
      unfolding one using empty keyMapProperty_own[OF parser] by (rule single_entry_pending)
    have ti: "throttleInterval (updateQueue ?w1) = interval"
      by (simp add: throttleInterval_def p1 thr)
    let ?d = "interval * (case rateLimitFactor w of Some f \<Rightarrow> f | None \<Rightarrow> 1)
                - (clock w - lastFlushedAt (updateQueue w))"
    have fd: "flushDelay (orDefault (rateLimitFactor w) 1) (clock w) (updateQueue ?w1) = ?d"
      by (cases "rateLimitFactor w") (simp_all add: flushDelay_def ti orDefault_def)
    have timer: "flushTimer (updateQueue w') = Some (clock w + ?d)"
      unfolding assms(5) by (simp only: update_times(4) fresh option.case fd)
    have cache: "flushPromiseCache (updateQueue w') = Some (fst (update String i su callOptions w))"
      unfolding assms(5) by (rule update_result(2))
    have "clock (flushToURL w') = max (clock w') (clock w + ?d)"
      using cache timer by (rule flushToURL_times(1))
    also have "\<dots> = clock w + ?d" by (simp add: assms(5) update_times(1))
    finally show ?thesis using timer by simp
  qed
  have timing': "flushPromiseCache (updateQueue w) = None \<and> pending (updateQueue w) = [] \<and>
          map fst (newStateOf (hooks w ! i) su) = [k] \<longrightarrow>
            flushTimer (updateQueue w')
              = Some (clock w + (interval * (case rateLimitFactor w of Some f \<Rightarrow> f | None \<Rightarrow> 1)
                                 - (clock w - lastFlushedAt (updateQueue w)))) \<and>
            clock (flushToURL w')
              = clock w + (interval * (case rateLimitFactor w of Some f \<Rightarrow> f | None \<Rightarrow> 1)
                           - (clock w - lastFlushedAt (updateQueue w)))"
    by (intro impI, elim conjE, rule timing)
  from opts st timing' show ?thesis by (intro conjI)
qed


theorem options_precedence_witness:
  "(0::nat) = length (hooks emptyPage) \<and>
   map_of [(''count'', countKey), (''page'', pageKey)] ''count'' = Some countKey \<and>
   map_of [(''count'', countKey), (''page'', pageKey)] ''page'' = Some pageKey \<and>
   throttleMs (noOptions\<lparr>throttleMs := Some 50\<rparr>) = Some 50 \<and>
   throttleMs countKey = Some 200 \<and> throttleMs pageKey = None \<and>
   map_option throttleMs (queuedOptions (updateQueue (snd (update serializeExample 0
       (PartialValues [(''page'', Some 5)]) noOptions throttleWorld))) ''page'') = Some (Some 50) \<and>
   map_option history (queuedOptions (updateQueue (snd (update serializeExample 0
       (PartialValues [(''page'', Some 5)]) noOptions throttleWorld))) ''page'') = Some (Some push) \<and>
   clock throttleWorld = 0 \<and>
   clock (flushToURL (snd (update serializeExample 0
       (PartialValues [(''page'', Some 5)]) noOptions throttleWorld))) = 50 \<and>
   clock (run serializeExample [Update 0 (PartialValues [(''page'', Some 5)]) noOptions, Flush] throttleWorld) = 50 \<and>
   lastFlushedAt (updateQueue
     (run serializeExample [Update 0 (PartialValues [(''page'', Some 5)]) noOptions, Flush] throttleWorld)) = 50 \<and>
   map_option throttleMs (queuedOptions (updateQueue (snd (update serializeExample 0
       (PartialValues [(''count'', Some 5)]) (noOptions\<lparr>throttleMs := Some 10\<rparr>)
       (run serializeExample [Update 0 (PartialValues [(''page'', Some 5)]) noOptions, Flush] throttleWorld))))
     ''count'') = Some (Some 10) \<and>
   clock (flushToURL (snd (update serializeExample 0
       (PartialValues [(''count'', Some 5)]) (noOptions\<lparr>throttleMs := Some 10\<rparr>)
       (run serializeExample [Update 0 (PartialValues [(''page'', Some 5)]) noOptions, Flush] throttleWorld))))
     = 60 \<and>
   clock (flushToURL (snd (update serializeExample 0
       (PartialValues [(''count'', Some 5)]) noOptions
       (run serializeExample [Update 0 (PartialValues [(''page'', Some 5)]) noOptions, Flush] throttleWorld))))
     = 250"
proof -
  let ?km = "[(''count'', countKey), (''page'', pageKey)]"
  let ?opts = "noOptions\<lparr>throttleMs := Some 50\<rparr>"
  let ?acts = "[Update 0 (PartialValues [(''page'', Some 5)]) noOptions, Flush]"
  let ?W = "run serializeExample ?acts throttleWorld"
  let ?call = "noOptions\<lparr>throttleMs := Some 10\<rparr>"
  have m0: "throttleWorld = run serializeExample [] (mount 20 ?km ?opts emptyPage)"
    by (simp add: run_def throttleWorld_def)
  have m1: "?W = run serializeExample ?acts (mount 20 ?km ?opts emptyPage)"
    by (simp add: throttleWorld_def)
  have h2: "(0::nat) = length (hooks emptyPage)" by (simp add: emptyPage_def)
  have kc: "map_of ?km ''count'' = Some countKey" and kp: "map_of ?km ''page'' = Some pageKey" by simp_all
  have o: "throttleMs ?opts = Some 50" "throttleMs countKey = Some 200" "throttleMs pageKey = None"
    "throttleMs noOptions = None" "throttleMs ?call = Some 10"
    "history noOptions = None" "history pageKey = Some push"
    by (simp_all add: noOptions_def countKey_def pageKey_def)
  have e0: "''page'' \<in> fst ` set (newStateOf (hooks throttleWorld ! 0) (PartialValues [(''page'', Some 5)]))"
    by (simp add: newStateOf_def)
  have e1: "''count'' \<in> fst ` set (newStateOf (hooks ?W ! 0) (PartialValues [(''count'', Some 5)]))"
    by (simp add: newStateOf_def)
  have s0: "flushPromiseCache (updateQueue throttleWorld) = None \<and> pending (updateQueue throttleWorld) = [] \<and>
      map fst (newStateOf (hooks throttleWorld ! 0) (PartialValues [(''page'', Some (5::int))])) = [''page'']"
    by code_simp
  have s1: "flushPromiseCache (updateQueue ?W) = None \<and> pending (updateQueue ?W) = [] \<and>
      map fst (newStateOf (hooks ?W ! 0) (PartialValues [(''count'', Some (5::int))])) = [''count'']"
    by code_simp
  have c0: "clock throttleWorld = 0" "lastFlushedAt (updateQueue throttleWorld) = 0"
    "rateLimitFactor throttleWorld = None"
    by code_simp+
  have c1: "clock ?W = 50" "lastFlushedAt (updateQueue ?W) = 50" "rateLimitFactor ?W = None"
    by code_simp+
  note t0 = options_precedence [OF m0 h2 kp e0 refl refl, of noOptions, unfolded o option.case c0]
  note t1 = options_precedence [OF m1 h2 kc e1 refl refl, of ?call, unfolded o option.case c1]
  note t2 = options_precedence [OF m1 h2 kc e1 refl refl, of noOptions, unfolded o option.case c1]
  from t0 have r1: "map_option throttleMs (queuedOptions (updateQueue (snd (update serializeExample 0
       (PartialValues [(''page'', Some 5)]) noOptions throttleWorld))) ''page'') = Some (Some 50)"
    by blast
  from t0 have r2: "map_option history (queuedOptions (updateQueue (snd (update serializeExample 0
       (PartialValues [(''page'', Some 5)]) noOptions throttleWorld))) ''page'') = Some (Some push)"
    by blast
  from t0 s0 have r3: "clock (flushToURL (snd (update serializeExample 0
       (PartialValues [(''page'', Some 5)]) noOptions throttleWorld))) = 50"
    by simp
  from t1 have r4: "map_option throttleMs (queuedOptions (updateQueue (snd (update serializeExample 0
       (PartialValues [(''count'', Some 5)]) ?call ?W))) ''count'') = Some (Some 10)"
    by blast
  from t1 s1 have r5: "clock (flushToURL (snd (update serializeExample 0
       (PartialValues [(''count'', Some 5)]) ?call ?W))) = 60"
    by simp
  from t2 s1 have r6: "clock (flushToURL (snd (update serializeExample 0
       (PartialValues [(''count'', Some 5)]) noOptions ?W))) = 250"
    by simp
  from h2 kc kp o(1,2,3) r1 r2 c0(1) r3 c1(1,2) r4 r5 r6 show ?thesis by (intro conjI)
qed

end
